theory Spec2Isabelle
  imports Main
begin

section \<open>The reflection transformer of \<^verbatim>\<open>external/build/lib/dts-parse.js\<close>\<close>

text \<open>
  The class \<^verbatim>\<open>Transform\<close> walks the JSON reflection tree that typedoc produces, writes
  the computed fields \<^verbatim>\<open>_name\<close>, \<^verbatim>\<open>_feature\<close> and \<^verbatim>\<open>_event\<close> into the node objects in
  place, replaces each walked node's \<^verbatim>\<open>children\<close> array by the filtered one, and collects
  references to namespace nodes in \<^verbatim>\<open>this.namespaces\<close>.

  The node objects are mutated through references, so they live in an explicit store: a
  node is an address, the store maps addresses to node records, a \<^verbatim>\<open>children\<close> array is
  a list of addresses, and the registry maps names to addresses. Type descriptors are
  read, never written, and are plain values. A string is the list of its UTF-8 bytes.
  An Isabelle identifier cannot start with an underscore, so the computed fields are
  \<open>x_name\<close>, \<open>x_feature\<close>, \<open>x_event\<close> and \<^verbatim>\<open>_processTags\<close> is \<open>processTags\<close>.
\<close>

subsection \<open>Data\<close>

type_synonym addr = nat

record flags =
  isPrivate :: "bool option"

text \<open>
  A type descriptor as the code reads it: the discriminator \<^verbatim>\<open>type\<close>, and the optional
  \<^verbatim>\<open>name\<close>, \<^verbatim>\<open>typeArguments\<close> and \<^verbatim>\<open>declaration\<close>. Of a declaration the code reads
  \<^verbatim>\<open>signatures\<close>, of a signature \<^verbatim>\<open>parameters\<close>.
\<close>

datatype ty =
  Ty (ty_type: string) (ty_name: "string option")
     (typeArguments: "ty list option") (ty_declaration: "decl option")
and decl =
  Decl (signatures: "sig list option")
and sig =
  Sig (parameters: "param list option")
and param =
  Param (p_id: int) (p_name: string) (p_kind: int) (p_flags: flags) (p_type: "ty option")

record comment_tag =
  tag :: string
  tag_text :: string

record comment =
  tags :: "comment_tag list option"

record deprecation =
  dep_value :: string
  dep_since :: "string option"

record feature =
  channel :: string
  platformAppsOnly :: "bool option"
  since :: "string option"
  permissions :: "string list option"
  manifestKeys :: "string list option"
  deprecated :: "deprecation option"
  minManifest :: "string option"
  maxManifest :: "string option"
  disallowServiceWorkers :: "bool option"

record event =
  addListenerParameters :: "param list option"

record node =
  name :: string
  kindString :: "string option"
  children :: "addr list option"
  flags :: "flags option"
  comment :: "comment option"
  type :: "ty option"
  x_name :: "string option"
  x_feature :: "feature option"
  x_event :: "event option"

record state =
  heap :: "addr \<Rightarrow> node"
  namespaces :: "string \<rightharpoonup> addr"

datatype error =
  NoArgument "string option"
| UnexpectedFirstArgument ty

subsection \<open>Strings\<close>

text \<open>\<^verbatim>\<open>Array.prototype.join\<close> and \<^verbatim>\<open>String.prototype.startsWith\<close>.\<close>

fun join :: "string \<Rightarrow> string list \<Rightarrow> string" where
  "join sep [] = []"
| "join sep [x] = x"
| "join sep (x # y # ys) = x @ sep @ join sep (y # ys)"

definition startsWith :: "string \<Rightarrow> string \<Rightarrow> bool" where
  "startsWith s p = (take (length p) s = p)"

text \<open>
  \<^verbatim>\<open>String.prototype.trim\<close> removes white space and line terminators from both ends: the
  code points U+0009 to U+000D, U+0020, U+00A0, U+1680, U+2000 to U+200A, U+2028, U+2029,
  U+202F, U+205F, U+3000 and U+FEFF. \<open>white_space\<close> lists their UTF-8 encodings. In
  well-formed UTF-8 a string starts or ends with the bytes of a code point exactly when
  that code point is its first or last, so stripping the encodings from the bytes is
  stripping the code points from the string.
\<close>

definition white_space :: "string list" where
  "white_space =
     [[CHR 0x09], [CHR 0x0A], [CHR 0x0B], [CHR 0x0C], [CHR 0x0D], [CHR 0x20],
      [CHR 0xC2, CHR 0xA0],
      [CHR 0xE1, CHR 0x9A, CHR 0x80],
      [CHR 0xE2, CHR 0x80, CHR 0x80], [CHR 0xE2, CHR 0x80, CHR 0x81],
      [CHR 0xE2, CHR 0x80, CHR 0x82], [CHR 0xE2, CHR 0x80, CHR 0x83],
      [CHR 0xE2, CHR 0x80, CHR 0x84], [CHR 0xE2, CHR 0x80, CHR 0x85],
      [CHR 0xE2, CHR 0x80, CHR 0x86], [CHR 0xE2, CHR 0x80, CHR 0x87],
      [CHR 0xE2, CHR 0x80, CHR 0x88], [CHR 0xE2, CHR 0x80, CHR 0x89],
      [CHR 0xE2, CHR 0x80, CHR 0x8A],
      [CHR 0xE2, CHR 0x80, CHR 0xA8], [CHR 0xE2, CHR 0x80, CHR 0xA9],
      [CHR 0xE2, CHR 0x80, CHR 0xAF],
      [CHR 0xE2, CHR 0x81, CHR 0x9F],
      [CHR 0xE3, CHR 0x80, CHR 0x80],
      [CHR 0xEF, CHR 0xBB, CHR 0xBF]]"

text \<open>\<open>strip ws s\<close> removes from the start of \<open>s\<close> every leading occurrence of a word of \<open>ws\<close>.\<close>

function strip :: "string list \<Rightarrow> string \<Rightarrow> string" where
  "strip ws s =
     (case find (\<lambda>w. w \<noteq> [] \<and> startsWith s w) ws of
        None \<Rightarrow> s
      | Some w \<Rightarrow> strip ws (drop (length w) s))"
  by pat_completeness auto
termination
proof (relation "measure (\<lambda>(ws, s). length s)")
  show "wf (measure (\<lambda>(ws, s). length s))" by simp
next
  fix ws :: "string list" and s w :: string
  assume "find (\<lambda>w. w \<noteq> [] \<and> startsWith s w) ws = Some w"
  then have w: "w \<noteq> []" and "take (length w) s = w"
    by (auto simp: find_Some_iff startsWith_def)
  then have "s \<noteq> []" by auto
  then show "((ws, drop (length w) s), (ws, s)) \<in> measure (\<lambda>(ws, s). length s)"
    using w by simp
qed

definition trim :: "string \<Rightarrow> string" where
  "trim s = rev (strip (map rev white_space) (rev (strip white_space s)))"

subsection \<open>The tag parser\<close>

definition chromeEventRefTypes :: "string list" where
  "chromeEventRefTypes = [''CustomChromeEvent'', ''events.Event'', ''Event'']"

text \<open>
  One round of the \<^verbatim>\<open>forEach\<close> of \<^verbatim>\<open>_processTags\<close>. The loop has two objects: \<^verbatim>\<open>out\<close>
  and the shared \<^verbatim>\<open>deprecated\<close> record. \<^verbatim>\<open>out.deprecated\<close> is only ever a reference to
  that record, and both cases that write the record also attach it, so the attached
  value is the record as just written.
\<close>

definition process_tag :: "feature \<times> deprecation \<Rightarrow> comment_tag \<Rightarrow> feature \<times> deprecation" where
  "process_tag st t =
     (let out = fst st; dep = snd st; txt = trim (tag_text t) in
      if tag t = ''chrome-platform-apps'' then (out\<lparr>platformAppsOnly := Some True\<rparr>, dep)
      else if tag t = ''since'' then (out\<lparr>since := Some txt\<rparr>, dep)
      else if tag t = ''chrome-channel'' then (out\<lparr>channel := txt\<rparr>, dep)
      else if tag t = ''chrome-permission'' then
        (out\<lparr>permissions :=
           Some ((case permissions out of None \<Rightarrow> [] | Some ps \<Rightarrow> ps) @ [txt])\<rparr>, dep)
      else if tag t = ''chrome-manifest'' then
        (out\<lparr>manifestKeys :=
           Some ((case manifestKeys out of None \<Rightarrow> [] | Some ks \<Rightarrow> ks) @ [txt])\<rparr>, dep)
      else if tag t = ''deprecated'' then
        (let dep' = dep\<lparr>dep_value := txt\<rparr> in (out\<lparr>deprecated := Some dep'\<rparr>, dep'))
      else if tag t = ''chrome-deprecated-since'' then
        (let dep' = dep\<lparr>dep_since := Some txt\<rparr> in (out\<lparr>deprecated := Some dep'\<rparr>, dep'))
      else if tag t = ''chrome-min-manifest'' then (out\<lparr>minManifest := Some txt\<rparr>, dep)
      else if tag t = ''chrome-max-manifest'' then (out\<lparr>maxManifest := Some txt\<rparr>, dep)
      else if tag t = ''chrome-disallow-service-workers'' then
        (out\<lparr>disallowServiceWorkers := Some True\<rparr>, dep)
      else (out, dep))"

definition initial_feature :: feature where
  "initial_feature =
     \<lparr>channel = ''stable'', platformAppsOnly = None, since = None, permissions = None,
      manifestKeys = None, deprecated = None, minManifest = None, maxManifest = None,
      disallowServiceWorkers = None\<rparr>"

definition initial_deprecation :: deprecation where
  "initial_deprecation = \<lparr>dep_value = [], dep_since = None\<rparr>"

definition processTags :: "comment_tag list \<Rightarrow> feature" where
  "processTags ts = fst (foldl process_tag (initial_feature, initial_deprecation) ts)"

subsection \<open>The child filter\<close>

text \<open>\<^verbatim>\<open>!(node.flags?.isPrivate || node.name.startsWith('_'))\<close>.\<close>

definition filter_node :: "node \<Rightarrow> bool" where
  "filter_node n =
     (\<not> ((case flags n of None \<Rightarrow> False | Some fl \<Rightarrow> isPrivate fl = Some True)
          \<or> startsWith (name n) ''_''))"

subsection \<open>Visiting one node\<close>

text \<open>\<^verbatim>\<open>node.children ?? []\<close> and \<^verbatim>\<open>node?.comment?.tags ?? []\<close>.\<close>

definition child_list :: "node \<Rightarrow> addr list" where
  "child_list n = (case children n of None \<Rightarrow> [] | Some cs \<Rightarrow> cs)"

definition node_tags :: "node \<Rightarrow> comment_tag list" where
  "node_tags n =
     (case comment n of None \<Rightarrow> []
      | Some c \<Rightarrow> (case tags c of None \<Rightarrow> [] | Some ts \<Rightarrow> ts))"

text \<open>\<^verbatim>\<open>node.type.typeArguments?.[0]\<close>.\<close>

definition first_argument :: "ty \<Rightarrow> ty option" where
  "first_argument t =
     (case typeArguments t of None \<Rightarrow> None | Some [] \<Rightarrow> None | Some (fa # _) \<Rightarrow> Some fa)"

text \<open>\<^verbatim>\<open>arg.declaration?.signatures?.[0]?.parameters\<close>.\<close>

definition signature_parameters :: "ty \<Rightarrow> param list option" where
  "signature_parameters arg =
     (case ty_declaration arg of None \<Rightarrow> None
      | Some d \<Rightarrow>
         (case signatures d of None \<Rightarrow> None | Some [] \<Rightarrow> None
          | Some (sg # _) \<Rightarrow> parameters sg))"

text \<open>The fully-qualified name that \<^verbatim>\<open>visit\<close> computes first.\<close>

definition fqdn_of :: "(addr \<Rightarrow> node) \<Rightarrow> addr list \<Rightarrow> addr \<Rightarrow> string" where
  "fqdn_of h parents a =
     (let parts = map (\<lambda>parent. name (h parent))
                    (filter (\<lambda>parent. kindString (h parent) \<noteq> Some ''Project'') parents)
                  @ [name (h a)]
      in join ''.'' (filter (\<lambda>x. x \<noteq> []) parts))"

definition hasNonNamespaceChild :: "(addr \<Rightarrow> node) \<Rightarrow> addr \<Rightarrow> bool" where
  "hasNonNamespaceChild h a =
     list_ex (\<lambda>x. kindString (h x) \<noteq> Some ''Namespace'') (child_list (h a))"

definition set_node :: "state \<Rightarrow> addr \<Rightarrow> node \<Rightarrow> state" where
  "set_node s a n = s\<lparr>heap := (heap s)(a := n)\<rparr>"

text \<open>
  The end of the event branch: the fresh \<^verbatim>\<open>extendedEvent\<close> object gets
  \<^verbatim>\<open>addListenerParameters\<close> when \<^verbatim>\<open>parameters\<close> is an array, and is attached.
\<close>

definition attach_event :: "state \<Rightarrow> addr \<Rightarrow> param list option \<Rightarrow> state" where
  "attach_event s a ps =
     (let extendedEvent = (case ps of None \<Rightarrow> \<lparr>addListenerParameters = None\<rparr>
                           | Some p \<Rightarrow> \<lparr>addListenerParameters = Some p\<rparr>)
      in set_node s a ((heap s a)\<lparr>x_event := Some extendedEvent\<rparr>))"

text \<open>
  \<^verbatim>\<open>visit(node, parents)\<close>. A \<^verbatim>\<open>throw\<close> is the result \<open>Inl\<close>: the transformation has no
  handler, so what was written before the throw is never returned.
\<close>

definition visit :: "state \<Rightarrow> addr \<Rightarrow> addr list \<Rightarrow> error + state" where
  "visit s a parents =
     (let node = heap s a;
          fqdn = fqdn_of (heap s) parents a
      in
      if kindString node = Some ''Namespace'' \<and> \<not> hasNonNamespaceChild (heap s) a
      then Inr s
      else
        let s1 = (if kindString node = Some ''Namespace''
                  then s\<lparr>namespaces := (namespaces s)(fqdn \<mapsto> a)\<rparr> else s);
            s2 = set_node s1 a ((heap s1 a)\<lparr>x_name := Some fqdn\<rparr>);
            s3 = set_node s2 a ((heap s2 a)\<lparr>x_feature := Some (processTags (node_tags node))\<rparr>)
        in
        (case type node of
           None \<Rightarrow> Inr s3
         | Some t \<Rightarrow>
             if ty_type t = ''reference''
                \<and> (case ty_name t of None \<Rightarrow> False | Some n \<Rightarrow> n \<in> set chromeEventRefTypes)
             then
               (case first_argument t of
                  None \<Rightarrow> Inl (NoArgument (ty_name t))
                | Some firstArgument \<Rightarrow>
                    if ty_name t = Some ''CustomChromeEvent''
                    then Inr (attach_event s3 a (signature_parameters firstArgument))
                    else if ty_type firstArgument = ''intrinsic''
                    then
                      (if ty_name firstArgument \<noteq> Some ''never''
                       then Inl (UnexpectedFirstArgument firstArgument)
                       else Inr (attach_event s3 a None))
                    else
                      Inr (attach_event s3 a
                             (Some [Param (- 1) ''callback'' 32768 \<lparr>isPrivate = None\<rparr>
                                      (Some firstArgument)])))
             else Inr s3))"

subsection \<open>The walk\<close>

text \<open>
  \<^verbatim>\<open>walk(node, parents)\<close> recurses through the \<^verbatim>\<open>children\<close> references of the store, which
  nothing forces to be a tree. The recursion depth is bounded by a fuel argument; \<open>None\<close>
  is "deeper than the fuel". The loop over the filtered children is \<open>walk_children\<close>.
\<close>

fun walk :: "nat \<Rightarrow> state \<Rightarrow> addr \<Rightarrow> addr list \<Rightarrow> (error + state) option"
and walk_children :: "nat \<Rightarrow> state \<Rightarrow> addr list \<Rightarrow> addr list \<Rightarrow> (error + state) option"
where
  "walk 0 s a parents = None"
| "walk (Suc f) s a parents =
     (case visit s a parents of
        Inl e \<Rightarrow> Some (Inl e)
      | Inr s1 \<Rightarrow>
          (case children (heap s1 a) of
             None \<Rightarrow> Some (Inr s1)
           | Some cs \<Rightarrow>
               (case walk_children f s1 (filter (\<lambda>c. filter_node (heap s1 c)) cs) (parents @ [a]) of
                  None \<Rightarrow> None
                | Some (Inl e) \<Rightarrow> Some (Inl e)
                | Some (Inr s2) \<Rightarrow>
                    Some (Inr (set_node s2 a
                      ((heap s2 a)\<lparr>children :=
                         Some (filter (\<lambda>c. filter_node (heap s1 c)) cs)\<rparr>))))))"
| "walk_children f s [] parents = Some (Inr s)"
| "walk_children f s (c # cs) parents =
     (case walk f s c parents of
        None \<Rightarrow> None
      | Some (Inl e) \<Rightarrow> Some (Inl e)
      | Some (Inr s1) \<Rightarrow> walk_children f s1 cs parents)"

text \<open>
  \<^verbatim>\<open>new Transform(project).run()\<close>: the registry starts empty, the walk starts at the
  project with no ancestors. The registry holds references, so the result is the final
  state: the registry and the store its addresses point into. The registry is a map on
  all strings; the one key that a JavaScript object treats specially, \<^verbatim>\<open>__proto__\<close>,
  can only be the name of a root that is not of kind \<^verbatim>\<open>Project\<close>, since every other node
  with a name that starts with an underscore is filtered out.
\<close>

definition run :: "nat \<Rightarrow> (addr \<Rightarrow> node) \<Rightarrow> addr \<Rightarrow> (error + state) option" where
  "run f h project = walk f \<lparr>heap = h, namespaces = Map.empty\<rparr> project []"

section \<open>Trees in the store\<close>

text \<open>
  The input of the transformation is a JSON value, so the part of the store that is
  reachable from the project is a finite tree without sharing. A \<open>shape\<close> is such a
  tree of addresses; \<open>repr h t\<close> says that the \<^verbatim>\<open>children\<close> fields of the store \<open>h\<close>
  spell out the shape \<open>t\<close>, and \<open>tree h t\<close> adds that no address occurs twice.
  \<open>height\<close> bounds the recursion depth of the walk.
\<close>

datatype shape = Shape (root: addr) (subs: "shape list")

fun addrs :: "shape \<Rightarrow> addr list" where
  "addrs (Shape a ss) = a # concat (map addrs ss)"

fun repr :: "(addr \<Rightarrow> node) \<Rightarrow> shape \<Rightarrow> bool" where
  "repr h (Shape a ss) = (child_list (h a) = map root ss \<and> list_all (repr h) ss)"

definition tree :: "(addr \<Rightarrow> node) \<Rightarrow> shape \<Rightarrow> bool" where
  "tree h t = (repr h t \<and> distinct (addrs t))"

fun height :: "shape \<Rightarrow> nat" where
  "height (Shape a ss) = Suc (foldr max (map height ss) 0)"

text \<open>
  The retained tree: below every node only the children that pass the child filter.
  \<open>visits h ps t\<close> lists the nodes of \<open>t\<close> that are reached from its root through
  children passing the filter, in the order of the walk, each as the subtree of the
  input it roots, paired with its ancestors from the root down (after \<open>ps\<close>).
\<close>

fun kept :: "(addr \<Rightarrow> node) \<Rightarrow> shape \<Rightarrow> shape" where
  "kept h (Shape a ss) = Shape a (map (kept h) (filter (\<lambda>u. filter_node (h (root u))) ss))"

fun visits :: "(addr \<Rightarrow> node) \<Rightarrow> addr list \<Rightarrow> shape \<Rightarrow> (addr list \<times> shape) list" where
  "visits h ps (Shape a ss) =
     (ps, Shape a ss) #
     concat (map (visits h (ps @ [a])) (filter (\<lambda>u. filter_node (h (root u))) ss))"

text \<open>
  A namespace node that \<^verbatim>\<open>visit\<close> returns from at once: none of its children has a
  \<^verbatim>\<open>kindString\<close> other than \<^verbatim>\<open>Namespace\<close>. \<open>container\<close> and \<open>registers\<close> read the
  children from a shape instead of the store.
\<close>

definition pure_container :: "(addr \<Rightarrow> node) \<Rightarrow> addr \<Rightarrow> bool" where
  "pure_container h a = (kindString (h a) = Some ''Namespace'' \<and> \<not> hasNonNamespaceChild h a)"

definition container :: "(addr \<Rightarrow> node) \<Rightarrow> shape \<Rightarrow> bool" where
  "container h u =
     (kindString (h (root u)) = Some ''Namespace''
      \<and> \<not> list_ex (\<lambda>v. kindString (h (root v)) \<noteq> Some ''Namespace'') (subs u))"

definition registers :: "(addr \<Rightarrow> node) \<Rightarrow> shape \<Rightarrow> bool" where
  "registers h u =
     (kindString (h (root u)) = Some ''Namespace''
      \<and> list_ex (\<lambda>v. kindString (h (root v)) \<noteq> Some ''Namespace'') (subs u))"

text \<open>The registrations of a walk, in its order: name and address.\<close>

definition regs :: "(addr \<Rightarrow> node) \<Rightarrow> addr list \<Rightarrow> shape \<Rightarrow> (string \<times> addr) list" where
  "regs h ps t =
     map (\<lambda>(qs, u). (fqdn_of h qs (root u), root u))
       (filter (\<lambda>(qs, u). registers h u) (visits h ps t))"

text \<open>
  The event branch of \<^verbatim>\<open>visit\<close> as a function of the node's type: the error it throws,
  or the \<^verbatim>\<open>_event\<close> object it attaches (\<open>None\<close> when the type is no event reference).
\<close>

definition event_of :: "ty option \<Rightarrow> error + event option" where
  "event_of tyo =
     (case tyo of
        None \<Rightarrow> Inr None
      | Some t \<Rightarrow>
          if ty_type t = ''reference''
             \<and> (case ty_name t of None \<Rightarrow> False | Some n \<Rightarrow> n \<in> set chromeEventRefTypes)
          then
            (case first_argument t of
               None \<Rightarrow> Inl (NoArgument (ty_name t))
             | Some fa \<Rightarrow>
                 if ty_name t = Some ''CustomChromeEvent''
                 then Inr (Some \<lparr>addListenerParameters = signature_parameters fa\<rparr>)
                 else if ty_type fa = ''intrinsic''
                 then (if ty_name fa \<noteq> Some ''never''
                       then Inl (UnexpectedFirstArgument fa)
                       else Inr (Some \<lparr>addListenerParameters = None\<rparr>))
                 else Inr (Some \<lparr>addListenerParameters =
                        Some [Param (- 1) ''callback'' 32768 \<lparr>isPrivate = None\<rparr> (Some fa)]\<rparr>))
          else Inr None)"

definition raises :: "(addr \<Rightarrow> node) \<Rightarrow> shape \<Rightarrow> bool" where
  "raises h u = (\<not> container h u \<and> isl (event_of (type (h (root u)))))"

text \<open>The node that a \<^verbatim>\<open>visit\<close> beyond the namespace check leaves at its address.\<close>

definition visited_node :: "(addr \<Rightarrow> node) \<Rightarrow> addr list \<Rightarrow> addr \<Rightarrow> event option \<Rightarrow> node" where
  "visited_node h ps a ev =
     (h a)\<lparr>x_name := Some (fqdn_of h ps a),
           x_feature := Some (processTags (node_tags (h a))),
           x_event := (case ev of None \<Rightarrow> x_event (h a) | Some e \<Rightarrow> Some e)\<rparr>"

text \<open>
  What a successful walk leaves of the node \<open>n\<close> that roots \<open>u\<close> under the ancestors
  \<open>qs\<close>: the computed fields unless the node is a pure container, and the filtered
  children where the node had a \<^verbatim>\<open>children\<close> array.
\<close>

definition annotate :: "node \<Rightarrow> (addr \<Rightarrow> node) \<Rightarrow> addr list \<Rightarrow> shape \<Rightarrow> node" where
  "annotate n h qs u =
     (if container h u then n
      else n\<lparr>x_name := Some (fqdn_of h qs (root u)),
             x_feature := Some (processTags (node_tags (h (root u)))),
             x_event := (case event_of (type (h (root u))) of
                           Inr (Some e) \<Rightarrow> Some e | _ \<Rightarrow> x_event n)\<rparr>)"

definition final_node :: "node \<Rightarrow> (addr \<Rightarrow> node) \<Rightarrow> addr list \<Rightarrow> shape \<Rightarrow> node" where
  "final_node n h qs u =
     (annotate n h qs u)\<lparr>children :=
        (case children n of None \<Rightarrow> None
         | Some cs \<Rightarrow> Some (map root (filter (\<lambda>v. filter_node (h (root v))) (subs u))))\<rparr>"

text \<open>
  Two stores agree on what the transformation reads and never writes: names, kinds,
  flags, comments and types.
\<close>

definition core_eq :: "(addr \<Rightarrow> node) \<Rightarrow> (addr \<Rightarrow> node) \<Rightarrow> bool" where
  "core_eq h h' =
     (\<forall>x. name (h x) = name (h' x) \<and> kindString (h x) = kindString (h' x)
          \<and> flags (h x) = flags (h' x) \<and> comment (h x) = comment (h' x)
          \<and> type (h x) = type (h' x))"

text \<open>
  The walk along a shape, as a relation: \<open>walk_tree s t ps r\<close> when the walk of the tree
  \<open>t\<close> from the state \<open>s\<close> with the ancestors \<open>ps\<close> ends in \<open>r\<close>. Every rule is one path
  through \<^verbatim>\<open>walk\<close>; the first premise of a node's rules ties the shape to the
  \<^verbatim>\<open>children\<close> field that the walk reads.
\<close>

inductive walk_tree :: "state \<Rightarrow> shape \<Rightarrow> addr list \<Rightarrow> error + state \<Rightarrow> bool"
and walk_trees :: "state \<Rightarrow> shape list \<Rightarrow> addr list \<Rightarrow> error + state \<Rightarrow> bool"
where
  walk_tree_raise:
    "child_list (heap s a) = map root ss \<Longrightarrow> visit s a ps = Inl e \<Longrightarrow>
     walk_tree s (Shape a ss) ps (Inl e)"
| walk_tree_leaf:
    "child_list (heap s a) = map root ss \<Longrightarrow> visit s a ps = Inr s1 \<Longrightarrow>
     children (heap s1 a) = None \<Longrightarrow>
     walk_tree s (Shape a ss) ps (Inr s1)"
| walk_tree_fail:
    "child_list (heap s a) = map root ss \<Longrightarrow> visit s a ps = Inr s1 \<Longrightarrow>
     children (heap s1 a) \<noteq> None \<Longrightarrow>
     walk_trees s1 (filter (\<lambda>u. filter_node (heap s1 (root u))) ss) (ps @ [a]) (Inl e) \<Longrightarrow>
     walk_tree s (Shape a ss) ps (Inl e)"
| walk_tree_node:
    "child_list (heap s a) = map root ss \<Longrightarrow> visit s a ps = Inr s1 \<Longrightarrow>
     children (heap s1 a) \<noteq> None \<Longrightarrow>
     walk_trees s1 (filter (\<lambda>u. filter_node (heap s1 (root u))) ss) (ps @ [a]) (Inr s2) \<Longrightarrow>
     walk_tree s (Shape a ss) ps
       (Inr (set_node s2 a ((heap s2 a)\<lparr>children :=
          Some (map root (filter (\<lambda>u. filter_node (heap s1 (root u))) ss))\<rparr>)))"
| walk_trees_nil:
    "walk_trees s [] ps (Inr s)"
| walk_trees_raise:
    "walk_tree s t ps (Inl e) \<Longrightarrow> walk_trees s (t # ts) ps (Inl e)"
| walk_trees_cons:
    "walk_tree s t ps (Inr s1) \<Longrightarrow> walk_trees s1 ts ps r \<Longrightarrow> walk_trees s (t # ts) ps r"

section \<open>Conditions of the claims\<close>

text \<open>
  When the transformation raises at a node with the type \<open>tyo\<close>, provided the node is not
  a pure container: the type is a reference to an event wrapper and has no first type
  argument, or the wrapper is not \<^verbatim>\<open>CustomChromeEvent\<close> and the first type argument is an
  intrinsic type not named \<^verbatim>\<open>never\<close>.
\<close>

definition bad_event_reference :: "ty option \<Rightarrow> bool" where
  "bad_event_reference tyo =
     (case tyo of
        None \<Rightarrow> False
      | Some t \<Rightarrow>
          ty_type t = ''reference''
          \<and> ty_name t \<in> set (map Some chromeEventRefTypes)
          \<and> (case first_argument t of
                None \<Rightarrow> True
              | Some fa \<Rightarrow>
                  ty_name t \<noteq> Some ''CustomChromeEvent''
                  \<and> ty_type fa = ''intrinsic'' \<and> ty_name fa \<noteq> Some ''never''))"

text \<open>
  The same condition without the two exceptions, for every wrapper name alike: a
  reference to an event wrapper with no type arguments, or with an intrinsic first type
  argument not named \<^verbatim>\<open>never\<close>.
\<close>

definition event_reference_without_never :: "ty option \<Rightarrow> bool" where
  "event_reference_without_never tyo =
     (case tyo of
        None \<Rightarrow> False
      | Some t \<Rightarrow>
          ty_type t = ''reference''
          \<and> ty_name t \<in> set (map Some chromeEventRefTypes)
          \<and> (case first_argument t of
                None \<Rightarrow> True
              | Some fa \<Rightarrow> ty_type fa = ''intrinsic'' \<and> ty_name fa \<noteq> Some ''never''))"

section \<open>Example stores\<close>

text \<open>A node as typedoc emits it: no computed field.\<close>

definition blank :: node where
  "blank = \<lparr>name = [], kindString = None, children = None, flags = None, comment = None,
            type = None, x_name = None, x_feature = None, x_event = None\<rparr>"

definition decl_node :: "string \<Rightarrow> string \<Rightarrow> addr list option \<Rightarrow> node" where
  "decl_node n k cs = blank\<lparr>name := n, kindString := Some k, children := cs\<rparr>"

definition tab_parameter :: param where
  "tab_parameter =
     Param 12 ''tab'' 32768 \<lparr>isPrivate = None\<rparr> (Some (Ty ''reference'' (Some ''Tab'') None None))"

definition callback_type :: ty where
  "callback_type =
     Ty ''reflection'' None None (Some (Decl (Some [Sig (Some [tab_parameter])])))"

definition event_type :: "string \<Rightarrow> ty \<Rightarrow> ty" where
  "event_type n arg = Ty ''reference'' (Some n) (Some [arg]) None"

definition never_type :: ty where
  "never_type = Ty ''intrinsic'' (Some ''never'') None None"

text \<open>
  Two \<^verbatim>\<open>chrome-channel\<close> tags around another tag; the text of the first is \<^verbatim>\<open>beta\<close> between
  two no-break spaces, the text of the last is \<^verbatim>\<open>dev\<close> with a line feed.
\<close>

definition tab_tags :: "comment_tag list" where
  "tab_tags =
     [\<lparr>tag = ''chrome-channel'', tag_text = [CHR 0xC2, CHR 0xA0] @ ''beta'' @ [CHR 0xC2, CHR 0xA0]\<rparr>,
      \<lparr>tag = ''since'', tag_text = ''Chrome 90''\<rparr>,
      \<lparr>tag = ''chrome-channel'', tag_text = ''dev'' @ [CHR 0x0A]\<rparr>]"

text \<open>
  A project with three namespaces: \<^verbatim>\<open>tabs\<close> with an interface, an underscore member and
  an event; \<^verbatim>\<open>runtime\<close>, whose only child is a private interface; and \<^verbatim>\<open>devtools\<close>, which
  holds only the namespace \<^verbatim>\<open>panels\<close>. The interface of \<^verbatim>\<open>tabs\<close> has the tags \<open>tab_tags\<close>.
\<close>

definition api_heap :: "addr \<Rightarrow> node" where
  "api_heap =
     (\<lambda>_. blank)
       (0 := decl_node ''api'' ''Project'' (Some [1, 5, 7]),
        1 := (decl_node ''tabs'' ''Namespace'' (Some [2, 3, 4]))
               \<lparr>comment := Some \<lparr>tags = Some [\<lparr>tag = ''chrome-permission'', tag_text = ''tabs''\<rparr>]\<rparr>\<rparr>,
        2 := (decl_node ''Tab'' ''Interface'' None)\<lparr>comment := Some \<lparr>tags = Some tab_tags\<rparr>\<rparr>,
        3 := decl_node ''_Internal'' ''Interface'' None,
        4 := (decl_node ''onUpdated'' ''Variable'' None)
               \<lparr>type := Some (event_type ''Event'' callback_type)\<rparr>,
        5 := decl_node ''runtime'' ''Namespace'' (Some [6]),
        6 := (decl_node ''Port'' ''Interface'' None)\<lparr>flags := Some \<lparr>isPrivate = Some True\<rparr>\<rparr>,
        7 := decl_node ''devtools'' ''Namespace'' (Some [8]),
        8 := decl_node ''panels'' ''Namespace'' (Some [9]),
        9 := decl_node ''create'' ''Function'' None)"

definition api_shape :: shape where
  "api_shape =
     Shape 0 [Shape 1 [Shape 2 [], Shape 3 [], Shape 4 []],
              Shape 5 [Shape 6 []],
              Shape 7 [Shape 8 [Shape 9 []]]]"

text \<open>A project whose only namespace is private.\<close>

definition private_namespace_heap :: "addr \<Rightarrow> node" where
  "private_namespace_heap =
     (\<lambda>_. blank)
       (0 := decl_node ''api'' ''Project'' (Some [1]),
        1 := (decl_node ''internal'' ''Namespace'' (Some [2]))
               \<lparr>flags := Some \<lparr>isPrivate = Some True\<rparr>\<rparr>,
        2 := decl_node ''Helper'' ''Interface'' None)"

text \<open>A namespace that holds only a namespace.\<close>

definition nested_namespace_heap :: "addr \<Rightarrow> node" where
  "nested_namespace_heap =
     (\<lambda>_. blank)
       (0 := decl_node ''chrome'' ''Namespace'' (Some [1]),
        1 := decl_node ''tabs'' ''Namespace'' (Some [2]),
        2 := decl_node ''Tab'' ''Interface'' None)"

text \<open>One node with a type, of a given kind.\<close>

definition typed_node_heap :: "string \<Rightarrow> ty \<Rightarrow> addr \<Rightarrow> node" where
  "typed_node_heap k t = (\<lambda>_. blank)(0 := (decl_node ''onEvent'' k None)\<lparr>type := Some t\<rparr>)"

text \<open>
  Two namespaces of one name: the first has only an underscore interface, the second
  a public one.
\<close>

definition same_name_heap :: "addr \<Rightarrow> node" where
  "same_name_heap =
     (\<lambda>_. blank)
       (0 := decl_node ''api'' ''Project'' (Some [1, 3]),
        1 := decl_node ''app'' ''Namespace'' (Some [2]),
        2 := decl_node ''_Hidden'' ''Interface'' None,
        3 := decl_node ''app'' ''Namespace'' (Some [4]),
        4 := decl_node ''Window'' ''Interface'' None)"

text \<open>A namespace without children whose comment has a \<^verbatim>\<open>chrome-channel\<close> tag.\<close>

definition tagged_container_heap :: "addr \<Rightarrow> node" where
  "tagged_container_heap =
     (\<lambda>_. blank)
       (0 := (decl_node ''experimental'' ''Namespace'' None)
               \<lparr>comment := Some \<lparr>tags = Some [\<lparr>tag = ''chrome-channel'', tag_text = ''beta''\<rparr>]\<rparr>\<rparr>)"

text \<open>
  A project with two events: the first of type \<^verbatim>\<open>Event<never>\<close>, the second of type
  \<^verbatim>\<open>Event\<close> without type arguments.
\<close>

definition raising_sibling_heap :: "addr \<Rightarrow> node" where
  "raising_sibling_heap =
     (\<lambda>_. blank)
       (0 := decl_node ''api'' ''Project'' (Some [1, 2]),
        1 := (decl_node ''onRequest'' ''Variable'' None)
               \<lparr>type := Some (event_type ''Event'' never_type)\<rparr>,
        2 := (decl_node ''onBroken'' ''Variable'' None)
               \<lparr>type := Some (Ty ''reference'' (Some ''Event'') None None)\<rparr>)"

text \<open>
  A project with two events: the first of type \<^verbatim>\<open>Event<never>\<close>, the second of type
  \<^verbatim>\<open>events.Event<T>\<close> for a reflection type \<open>T\<close>.
\<close>

definition declarative_heap :: "addr \<Rightarrow> node" where
  "declarative_heap =
     (\<lambda>_. blank)
       (0 := decl_node ''api'' ''Project'' (Some [1, 2]),
        1 := (decl_node ''onRequest'' ''Variable'' None)
               \<lparr>type := Some (event_type ''Event'' never_type)\<rparr>,
        2 := (decl_node ''onUpdated'' ''Variable'' None)
               \<lparr>type := Some (event_type ''events.Event'' callback_type)\<rparr>)"

definition declarative_shape :: shape where
  "declarative_shape = Shape 0 [Shape 1 [], Shape 2 []]"

section \<open>The walk on a tree\<close>

subsection \<open>A closed form of \<^verbatim>\<open>visit\<close>\<close>

lemma attach_event_eq:
  "attach_event s a ps = set_node s a ((heap s a)\<lparr>x_event := Some \<lparr>addListenerParameters = ps\<rparr>\<rparr>)"
  by (cases ps) (simp_all add: attach_event_def)

lemma visit_eq:
  "visit s a ps =
     (if pure_container (heap s) a then Inr s
      else case event_of (type (heap s a)) of
             Inl e \<Rightarrow> Inl e
           | Inr ev \<Rightarrow>
               Inr \<lparr>heap = (heap s)(a := visited_node (heap s) ps a ev),
                    namespaces = (if kindString (heap s a) = Some ''Namespace''
                                  then (namespaces s)(fqdn_of (heap s) ps a \<mapsto> a)
                                  else namespaces s)\<rparr>)"
  by (cases s)
     (auto simp: visit_def pure_container_def event_of_def visited_node_def attach_event_eq set_node_def
        Let_def split: option.splits)

subsection \<open>What no step writes\<close>

lemma core_eq_refl: "core_eq h h"
  by (simp add: core_eq_def)

lemma core_eq_trans: "core_eq h1 h2 \<Longrightarrow> core_eq h2 h3 \<Longrightarrow> core_eq h1 h3"
  by (simp add: core_eq_def)

lemma core_eq_sym: "core_eq h1 h2 \<Longrightarrow> core_eq h2 h1"
  by (simp add: core_eq_def)

lemma visit_core: "visit s a ps = Inr s' \<Longrightarrow> core_eq (heap s') (heap s)"
  by (auto simp: visit_eq core_eq_def visited_node_def split: if_splits sum.splits)

lemma visit_children: "visit s a ps = Inr s' \<Longrightarrow> children (heap s' x) = children (heap s x)"
  by (auto simp: visit_eq visited_node_def split: if_splits sum.splits)

lemma visit_other: "visit s a ps = Inr s' \<Longrightarrow> x \<noteq> a \<Longrightarrow> heap s' x = heap s x"
  by (auto simp: visit_eq split: if_splits sum.splits)

lemma set_children_core: "core_eq (heap (set_node s a ((heap s a)\<lparr>children := c\<rparr>))) (heap s)"
  by (simp add: core_eq_def set_node_def)

lemma walk_tree_core:
  "walk_tree s t ps r \<Longrightarrow> r = Inr s' \<Longrightarrow> core_eq (heap s') (heap s)"
  "walk_trees s ts ps r \<Longrightarrow> r = Inr s' \<Longrightarrow> core_eq (heap s') (heap s)"
proof (induction arbitrary: s' and s' rule: walk_tree_walk_trees.inducts)
  case (walk_tree_node s a ss ps s1 s2)
  have "core_eq (heap s2) (heap s)"
    using walk_tree_node.IH walk_tree_node.hyps(2) by (blast intro: core_eq_trans visit_core)
  moreover have "core_eq (heap s') (heap s2)"
    using walk_tree_node.prems by (auto simp: set_children_core)
  ultimately show ?case by (blast intro: core_eq_trans)
next
  case (walk_trees_cons s t ps s1 ts r)
  then show ?case by (blast intro: core_eq_trans)
qed (auto simp: core_eq_refl visit_core)

subsection \<open>The frame of a walk\<close>

text \<open>A walk writes only at the retained nodes of the tree it walks.\<close>

lemma filter_node_core: "core_eq h h' \<Longrightarrow> filter_node (h x) = filter_node (h' x)"
  by (simp add: core_eq_def filter_node_def)

lemma keep_filter_core:
  "core_eq h h' \<Longrightarrow>
   filter (\<lambda>u. filter_node (h (root u))) ss = filter (\<lambda>u. filter_node (h' (root u))) ss"
  by (simp add: filter_node_core [of h h'])

lemma walk_tree_frame:
  "walk_tree s t ps r \<Longrightarrow> r = Inr s' \<Longrightarrow> core_eq (heap s) h0 \<Longrightarrow>
   x \<notin> set (addrs (kept h0 t)) \<Longrightarrow> heap s' x = heap s x"
  "walk_trees s ts ps r \<Longrightarrow> r = Inr s' \<Longrightarrow> core_eq (heap s) h0 \<Longrightarrow>
   x \<notin> set (concat (map (\<lambda>t. addrs (kept h0 t)) ts)) \<Longrightarrow> heap s' x = heap s x"
proof (induction arbitrary: s' and s' rule: walk_tree_walk_trees.inducts)
  case (walk_tree_leaf s a ss ps s1)
  then show ?case by (auto simp: visit_other)
next
  case (walk_tree_node s a ss ps s1 s2)
  have xa: "x \<noteq> a" using walk_tree_node.prems by auto
  have c1: "core_eq (heap s1) h0"
    using walk_tree_node.hyps(2) walk_tree_node.prems(2) by (blast intro: core_eq_trans visit_core)
  have "x \<notin> set (concat (map (\<lambda>t. addrs (kept h0 t))
           (filter (\<lambda>u. filter_node (heap s1 (root u))) ss)))"
    using walk_tree_node.prems(3) by (simp add: keep_filter_core [OF c1] comp_def)
  then have "heap s2 x = heap s1 x"
    using walk_tree_node.IH c1 by blast
  moreover have "heap s1 x = heap s x"
    using walk_tree_node.hyps(2) xa by (rule visit_other)
  moreover have "heap s' x = heap s2 x"
    using walk_tree_node.prems(1) xa by (auto simp: set_node_def)
  ultimately show ?case by simp
next
  case (walk_trees_cons s t ps s1 ts r)
  have c1: "core_eq (heap s1) h0"
    using walk_tree_core(1) [OF walk_trees_cons.hyps(1) refl] walk_trees_cons.prems(2)
    by (blast intro: core_eq_trans)
  have "heap s1 x = heap s x"
    using walk_trees_cons.IH(1) walk_trees_cons.prems by auto
  moreover have "heap s' x = heap s1 x"
    using walk_trees_cons.IH(2) [OF walk_trees_cons.prems(1) c1] walk_trees_cons.prems(3) by auto
  ultimately show ?case by simp
qed auto

subsection \<open>The fuelled walk on a tree\<close>

text \<open>
  With fuel for the height of the tree, \<^verbatim>\<open>walk\<close> ends, and its result is the one of the
  relation.
\<close>

lemma repr_cong:
  "(\<And>x. x \<in> set (addrs t) \<Longrightarrow> children (h' x) = children (h x)) \<Longrightarrow> repr h' t = repr h t"
proof (induction t)
  case (Shape a ss)
  have "list_all (repr h') ss = list_all (repr h) ss"
    using Shape by (auto simp: list_all_iff)
  moreover have "child_list (h' a) = child_list (h a)"
    using Shape.prems [of a] by (simp add: child_list_def)
  ultimately show ?case by simp
qed

lemma addrs_kept_subset: "set (addrs (kept h t)) \<subseteq> set (addrs t)"
  by (induction t) auto

lemma root_in_addrs: "root t \<in> set (addrs t)"
  by (cases t) simp

lemma root_kept: "root (kept h t) = root t"
  by (cases t) simp

lemma height_sub: "u \<in> set ss \<Longrightarrow> height u \<le> foldr max (map height ss) 0"
  by (induction ss) auto

lemma distinct_concat_filter:
  "distinct (concat (map f xs)) \<Longrightarrow> distinct (concat (map f (filter P xs)))"
  by (induction xs) auto

lemma walk_children_follows:
  assumes W: "\<And>s t. height t \<le> f \<Longrightarrow> repr (heap s) t \<Longrightarrow> distinct (addrs t) \<Longrightarrow>
                \<exists>r. walk f s (root t) ps = Some r \<and> walk_tree s t ps r"
  shows "\<forall>u\<in>set us. height u \<le> f \<Longrightarrow> \<forall>u\<in>set us. repr (heap s) u \<Longrightarrow>
         distinct (concat (map addrs us)) \<Longrightarrow>
         \<exists>r. walk_children f s (map root us) ps = Some r \<and> walk_trees s us ps r"
proof (induction us arbitrary: s)
  case Nil
  show ?case by (auto intro: walk_trees_nil)
next
  case (Cons u us)
  have du: "distinct (addrs u)" using Cons.prems(3) by simp
  obtain r where r: "walk f s (root u) ps = Some r" "walk_tree s u ps r"
    using W [of u s] Cons.prems du by auto
  show ?case
  proof (cases r)
    case (Inl e)
    then show ?thesis using r by (auto intro: walk_trees_raise)
  next
    case (Inr s1)
    have same: "heap s1 x = heap s x" if "x \<notin> set (addrs u)" for x
      using walk_tree_frame(1) [OF r(2) Inr core_eq_refl, of x] that addrs_kept_subset [of "heap s" u]
      by blast
    have "\<forall>v\<in>set us. repr (heap s1) v"
    proof
      fix v assume v: "v \<in> set us"
      have disj: "set (addrs v) \<inter> set (addrs u) = {}"
        using Cons.prems(3) v by auto
      have "repr (heap s1) v = repr (heap s) v"
      proof (rule repr_cong)
        fix x assume "x \<in> set (addrs v)"
        then have "x \<notin> set (addrs u)" using disj by auto
        then show "children (heap s1 x) = children (heap s x)" by (simp add: same)
      qed
      then show "repr (heap s1) v" using Cons.prems(2) v by simp
    qed
    then obtain r' where r': "walk_children f s1 (map root us) ps = Some r'" "walk_trees s1 us ps r'"
      using Cons.IH [of s1] Cons.prems by auto
    show ?thesis
      using r r' Inr by (auto intro: walk_trees_cons)
  qed
qed

lemma walk_follows:
  "height t \<le> f \<Longrightarrow> repr (heap s) t \<Longrightarrow> distinct (addrs t) \<Longrightarrow>
   \<exists>r. walk f s (root t) ps = Some r \<and> walk_tree s t ps r"
proof (induction f arbitrary: s t ps)
  case 0
  then show ?case by (cases t) simp
next
  case (Suc f)
  obtain a ss where t: "t = Shape a ss" by (cases t)
  have link: "child_list (heap s a) = map root ss"
    using Suc.prems(2) t by simp
  show ?case
  proof (cases "visit s a ps")
    case (Inl e)
    then show ?thesis using t link by (auto intro: walk_tree_raise)
  next
    case (Inr s1)
    have ch: "children (heap s1 x) = children (heap s x)" for x
      using Inr by (rule visit_children)
    show ?thesis
    proof (cases "children (heap s a)")
      case None
      then show ?thesis using t link Inr ch by (auto intro: walk_tree_leaf)
    next
      case (Some cs)
      then have cs: "cs = map root ss" using link by (simp add: child_list_def)
      let ?us = "filter (\<lambda>u. filter_node (heap s1 (root u))) ss"
      have fm: "filter (\<lambda>c. filter_node (heap s1 c)) cs = map root ?us"
        by (simp add: cs filter_map comp_def)
      have h: "\<forall>u\<in>set ?us. height u \<le> f"
        using Suc.prems(1) t height_sub [of _ ss] by fastforce
      have rp: "\<forall>u\<in>set ?us. repr (heap s1) u"
      proof
        fix u assume "u \<in> set ?us"
        then have "repr (heap s) u" using Suc.prems(2) t by (auto simp: list_all_iff)
        moreover have "repr (heap s1) u = repr (heap s) u"
          by (intro repr_cong) (simp add: ch)
        ultimately show "repr (heap s1) u" by simp
      qed
      have d: "distinct (concat (map addrs ?us))"
        using Suc.prems(3) t by (simp add: distinct_concat_filter)
      obtain r where r: "walk_children f s1 (map root ?us) (ps @ [a]) = Some r"
          "walk_trees s1 ?us (ps @ [a]) r"
        using walk_children_follows [of f "ps @ [a]" ?us s1, OF Suc.IH h rp d] by blast
      have nn: "children (heap s1 a) \<noteq> None" using ch Some by simp
      show ?thesis
      proof (cases r)
        case (Inl e)
        then show ?thesis
          using t Inr Some ch r fm walk_tree_fail [OF link Inr nn] by auto
      next
        case (Inr s2)
        then show ?thesis
          using t \<open>visit s a ps = Inr s1\<close> Some ch r fm
            walk_tree_node [OF link \<open>visit s a ps = Inr s1\<close> nn] by auto
      qed
    qed
  qed
qed

subsection \<open>The registry after a walk\<close>

lemma fqdn_of_core: "core_eq h h' \<Longrightarrow> fqdn_of h ps a = fqdn_of h' ps a"
  by (simp add: fqdn_of_def core_eq_def)

lemma pure_container_shape:
  assumes "child_list (heap s a) = map root ss" and "core_eq (heap s) h0"
  shows "pure_container (heap s) a = container h0 (Shape a ss)"
  using assms
  by (simp add: pure_container_def container_def hasNonNamespaceChild_def list_ex_iff core_eq_def)

lemma visit_isl:
  assumes "child_list (heap s a) = map root ss" and "core_eq (heap s) h0"
  shows "isl (visit s a ps) = raises h0 (Shape a ss)"
proof -
  have "type (heap s a) = type (h0 a)" using assms(2) by (simp add: core_eq_def)
  then show ?thesis
    using pure_container_shape [OF assms]
    by (auto simp: visit_eq raises_def split: sum.splits)
qed

lemma visit_namespaces:
  assumes "child_list (heap s a) = map root ss" and "core_eq (heap s) h0"
    and "visit s a ps = Inr s1"
  shows "namespaces s1 =
           (if registers h0 (Shape a ss) then (namespaces s)(fqdn_of h0 ps a \<mapsto> a)
            else namespaces s)"
proof -
  have k: "kindString (heap s a) = kindString (h0 a)" using assms(2) by (simp add: core_eq_def)
  have r: "registers h0 (Shape a ss) =
             (kindString (h0 a) = Some ''Namespace'' \<and> \<not> container h0 (Shape a ss))"
    by (auto simp: registers_def container_def)
  show ?thesis
    using assms(3) pure_container_shape [OF assms(1,2)] k r fqdn_of_core [OF assms(2)]
    by (auto simp: visit_eq container_def split: if_splits sum.splits)
qed

lemma regs_Shape:
  "regs h ps (Shape a ss) =
     (if registers h (Shape a ss) then [(fqdn_of h ps a, a)] else []) @
     concat (map (regs h (ps @ [a])) (filter (\<lambda>u. filter_node (h (root u))) ss))"
proof -
  have "regs h (ps @ [a]) =
          (\<lambda>x. map (\<lambda>(qs, u). (fqdn_of h qs (root u), root u))
                 (filter (\<lambda>(qs, y). registers h y) (visits h (ps @ [a]) x)))"
    by (rule ext) (simp add: regs_def)
  then show ?thesis
    by (simp add: regs_def map_concat filter_concat comp_def)
qed

lemma namespaces_regs_Shape:
  "m ++ map_of (rev (regs h ps (Shape a ss))) =
     (if registers h (Shape a ss) then m(fqdn_of h ps a \<mapsto> a) else m) ++
     map_of (rev (concat (map (regs h (ps @ [a]))
                    (filter (\<lambda>u. filter_node (h (root u))) ss))))"
  by (rule ext) (simp add: regs_Shape map_add_def split: option.splits)

lemma walk_tree_registry:
  "walk_tree s t ps r \<Longrightarrow> r = Inr s' \<Longrightarrow> core_eq (heap s) h0 \<Longrightarrow>
   namespaces s' = namespaces s ++ map_of (rev (regs h0 ps t))"
  "walk_trees s ts ps r \<Longrightarrow> r = Inr s' \<Longrightarrow> core_eq (heap s) h0 \<Longrightarrow>
   namespaces s' = namespaces s ++ map_of (rev (concat (map (regs h0 ps) ts)))"
proof (induction arbitrary: s' and s' rule: walk_tree_walk_trees.inducts)
  case (walk_tree_leaf s a ss ps s1)
  have "children (heap s a) = None"
    using walk_tree_leaf.hyps(2,3) visit_children by metis
  then have "ss = []" using walk_tree_leaf.hyps(1) by (simp add: child_list_def)
  then show ?case
    using visit_namespaces [OF walk_tree_leaf.hyps(1) walk_tree_leaf.prems(2) walk_tree_leaf.hyps(2)] walk_tree_leaf.prems(1)
    by (simp add: namespaces_regs_Shape)
next
  case (walk_tree_node s a ss ps s1 s2)
  have c1: "core_eq (heap s1) h0"
    using walk_tree_node.hyps(2) walk_tree_node.prems(2) by (blast intro: core_eq_trans visit_core)
  have "namespaces s2 = namespaces s1 ++ map_of (rev (concat (map (regs h0 (ps @ [a]))
           (filter (\<lambda>u. filter_node (h0 (root u))) ss))))"
    using walk_tree_node.IH [OF refl c1] by (simp add: keep_filter_core [OF c1])
  moreover have "namespaces s' = namespaces s2"
    using walk_tree_node.prems(1) by (auto simp: set_node_def)
  ultimately show ?case
    using visit_namespaces [OF walk_tree_node.hyps(1) walk_tree_node.prems(2) walk_tree_node.hyps(2)]
    by (simp add: namespaces_regs_Shape)
next
  case (walk_trees_cons s t ps s1 ts r)
  have c1: "core_eq (heap s1) h0"
    using walk_tree_core(1) [OF walk_trees_cons.hyps(1) refl] walk_trees_cons.prems(2)
    by (blast intro: core_eq_trans)
  show ?case
    using walk_trees_cons.IH(1) [OF refl walk_trees_cons.prems(2)] walk_trees_cons.IH(2) [OF walk_trees_cons.prems(1) c1]
    by simp
qed auto

subsection \<open>When a walk raises\<close>

lemma walk_tree_error:
  "walk_tree s t ps r \<Longrightarrow> core_eq (heap s) h0 \<Longrightarrow>
   isl r = list_ex (\<lambda>(qs, u). raises h0 u) (visits h0 ps t)"
  "walk_trees s ts ps r \<Longrightarrow> core_eq (heap s) h0 \<Longrightarrow>
   isl r = list_ex (\<lambda>(qs, u). raises h0 u) (concat (map (visits h0 ps) ts))"
proof (induction rule: walk_tree_walk_trees.inducts)
  case (walk_tree_raise s a ss ps e)
  then show ?case using visit_isl [OF walk_tree_raise.hyps(1) walk_tree_raise.prems, of ps] by simp
next
  case (walk_tree_leaf s a ss ps s1)
  have "children (heap s a) = None"
    using walk_tree_leaf.hyps(2,3) visit_children by metis
  then have "ss = []" using walk_tree_leaf.hyps(1) by (simp add: child_list_def)
  then show ?case
    using visit_isl [OF walk_tree_leaf.hyps(1) walk_tree_leaf.prems, of ps] walk_tree_leaf.hyps(2) by simp
next
  case (walk_tree_fail s a ss ps s1 e)
  have c1: "core_eq (heap s1) h0"
    using walk_tree_fail.hyps(2) walk_tree_fail.prems by (blast intro: core_eq_trans visit_core)
  show ?case
    using walk_tree_fail.IH [OF c1] by (simp add: keep_filter_core [OF c1])
next
  case (walk_tree_node s a ss ps s1 s2)
  have c1: "core_eq (heap s1) h0"
    using walk_tree_node.hyps(2) walk_tree_node.prems by (blast intro: core_eq_trans visit_core)
  show ?case
    using walk_tree_node.IH [OF c1] visit_isl [OF walk_tree_node.hyps(1) walk_tree_node.prems, of ps] walk_tree_node.hyps(2)
    by (simp add: keep_filter_core [OF c1])
next
  case (walk_trees_cons s t ps s1 ts r)
  have c1: "core_eq (heap s1) h0"
    using walk_tree_core(1) [OF walk_trees_cons.hyps(1) refl] walk_trees_cons.prems
    by (blast intro: core_eq_trans)
  show ?case
    using walk_trees_cons.IH(1) [OF walk_trees_cons.prems] walk_trees_cons.IH(2) [OF c1] by simp
qed auto

subsection \<open>The nodes after a walk\<close>

lemma node_tags_core: "core_eq h h' \<Longrightarrow> node_tags (h x) = node_tags (h' x)"
  by (simp add: core_eq_def node_tags_def)

lemma visit_node:
  assumes "child_list (heap s a) = map root ss" and "core_eq (heap s) h0"
    and "visit s a ps = Inr s1"
  shows "heap s1 a = annotate (heap s a) h0 ps (Shape a ss)"
proof -
  have t: "type (heap s a) = type (h0 a)" using assms(2) by (simp add: core_eq_def)
  show ?thesis
    using assms(3) pure_container_shape [OF assms(1,2)] fqdn_of_core [OF assms(2)]
      node_tags_core [OF assms(2)] t
    by (auto simp: visit_eq annotate_def visited_node_def split: if_splits sum.splits option.splits)
qed

lemma children_annotate: "children (annotate n h qs u) = children n"
  by (simp add: annotate_def)

lemma visits_addrs: "(qs, u) \<in> set (visits h ps t) \<Longrightarrow> root u \<in> set (addrs t)"
proof (induction t arbitrary: ps)
  case (Shape a ss)
  then show ?case by fastforce
qed

lemma walk_tree_final:
  "walk_tree s t ps r \<Longrightarrow> r = Inr s' \<Longrightarrow> core_eq (heap s) h0 \<Longrightarrow> distinct (addrs t) \<Longrightarrow>
   (qs, u) \<in> set (visits h0 ps t) \<Longrightarrow>
   heap s' (root u) = final_node (heap s (root u)) h0 qs u"
  "walk_trees s ts ps r \<Longrightarrow> r = Inr s' \<Longrightarrow> core_eq (heap s) h0 \<Longrightarrow>
   distinct (concat (map addrs ts)) \<Longrightarrow>
   (qs, u) \<in> set (concat (map (visits h0 ps) ts)) \<Longrightarrow>
   heap s' (root u) = final_node (heap s (root u)) h0 qs u"
proof (induction arbitrary: s' and s' rule: walk_tree_walk_trees.inducts)
  case (walk_tree_leaf s a ss ps s1)
  have n: "children (heap s a) = None"
    using walk_tree_leaf.hyps(2,3) visit_children by metis
  then have "ss = []" using walk_tree_leaf.hyps(1) by (simp add: child_list_def)
  then have u: "qs = ps" "u = Shape a ss" using walk_tree_leaf.prems(4) by auto
  have "heap s' a = annotate (heap s a) h0 ps (Shape a ss)"
    using visit_node [OF walk_tree_leaf.hyps(1) walk_tree_leaf.prems(2) walk_tree_leaf.hyps(2)] walk_tree_leaf.prems(1)
    by simp
  moreover have "children (annotate (heap s a) h0 ps (Shape a ss)) = None"
    using n by (simp add: children_annotate)
  ultimately show ?case
    using n u by (simp add: final_node_def)
next
  case (walk_tree_node s a ss ps s1 s2)
  let ?ks = "filter (\<lambda>u. filter_node (h0 (root u))) ss"
  have c1: "core_eq (heap s1) h0"
    using walk_tree_node.hyps(2) walk_tree_node.prems(2) by (blast intro: core_eq_trans visit_core)
  have ks: "filter (\<lambda>u. filter_node (heap s1 (root u))) ss = ?ks"
    by (rule keep_filter_core [OF c1])
  have a_out: "a \<notin> set (concat (map addrs ss))"
    using walk_tree_node.prems(3) by simp
  have sub: "set (concat (map (\<lambda>t. addrs (kept h0 t)) ?ks)) \<subseteq> set (concat (map addrs ss))"
    using addrs_kept_subset [of h0] by fastforce
  consider (top) "qs = ps" "u = Shape a ss"
    | (below) "(qs, u) \<in> set (concat (map (visits h0 (ps @ [a])) ?ks))"
    using walk_tree_node.prems(4) by auto
  then show ?case
  proof cases
    case top
    have "heap s2 a = heap s1 a"
      using walk_tree_frame(2) [OF walk_tree_node.hyps(4) refl c1, of a] a_out sub ks by auto
    moreover have "heap s1 a = annotate (heap s a) h0 ps (Shape a ss)"
      by (rule visit_node [OF walk_tree_node.hyps(1) walk_tree_node.prems(2) walk_tree_node.hyps(2)])
    moreover have "children (heap s a) \<noteq> None"
      using walk_tree_node.hyps(2,3) visit_children by metis
    ultimately show ?thesis
      using walk_tree_node.prems(1) top ks by (auto simp: final_node_def set_node_def)
  next
    case below
    then obtain v where v: "v \<in> set ?ks" "(qs, u) \<in> set (visits h0 (ps @ [a]) v)" by auto
    then have "root u \<in> set (concat (map addrs ss))"
      using visits_addrs [of qs u h0 "ps @ [a]" v] by auto
    then have ne: "root u \<noteq> a" using a_out by auto
    have d: "distinct (concat (map addrs (filter (\<lambda>u. filter_node (heap s1 (root u))) ss)))"
      using walk_tree_node.prems(3) by (simp add: distinct_concat_filter)
    have "heap s2 (root u) = final_node (heap s1 (root u)) h0 qs u"
      using walk_tree_node.IH [OF refl c1 d] below ks by simp
    moreover have "heap s1 (root u) = heap s (root u)"
      using walk_tree_node.hyps(2) ne by (rule visit_other)
    moreover have "heap s' (root u) = heap s2 (root u)"
      using walk_tree_node.prems(1) ne by (auto simp: set_node_def)
    ultimately show ?thesis by simp
  qed
next
  case (walk_trees_cons s t ps s1 ts r)
  have c1: "core_eq (heap s1) h0"
    using walk_tree_core(1) [OF walk_trees_cons.hyps(1) refl] walk_trees_cons.prems(2)
    by (blast intro: core_eq_trans)
  have dt: "distinct (addrs t)" and dts: "distinct (concat (map addrs ts))"
    and disj: "set (addrs t) \<inter> set (concat (map addrs ts)) = {}"
    using walk_trees_cons.prems(3) by auto
  consider (first) "(qs, u) \<in> set (visits h0 ps t)"
    | (rest) "(qs, u) \<in> set (concat (map (visits h0 ps) ts))"
    using walk_trees_cons.prems(4) by auto
  then show ?case
  proof cases
    case first
    have "root u \<in> set (addrs t)" using first by (rule visits_addrs)
    then have "root u \<notin> set (concat (map addrs ts))" using disj by auto
    then have "root u \<notin> set (concat (map (\<lambda>t. addrs (kept h0 t)) ts))"
      using addrs_kept_subset [of h0] by fastforce
    then have "heap s' (root u) = heap s1 (root u)"
      using walk_tree_frame(2) [OF walk_trees_cons.hyps(2) walk_trees_cons.prems(1) c1] by blast
    then show ?thesis
      using walk_trees_cons.IH(1) [OF refl walk_trees_cons.prems(2) dt first] by simp
  next
    case rest
    then obtain v where v: "v \<in> set ts" "(qs, u) \<in> set (visits h0 ps v)" by auto
    then have "root u \<in> set (concat (map addrs ts))"
      using visits_addrs [of qs u h0 ps v] by auto
    then have "root u \<notin> set (addrs (kept h0 t))"
      using disj addrs_kept_subset [of h0 t] by auto
    then have "heap s1 (root u) = heap s (root u)"
      using walk_tree_frame(1) [OF walk_trees_cons.hyps(1) refl walk_trees_cons.prems(2)] by blast
    then show ?thesis
      using walk_trees_cons.IH(2) [OF walk_trees_cons.prems(1) c1 dts rest] by simp
  qed
qed auto

subsection \<open>The run\<close>

text \<open>
  More fuel does not change a result, so whatever a run on a tree returns is the
  result of the relation, and the lemmas on the relation hold of it.
\<close>

lemma walk_mono:
  "walk f s a ps = Some r \<Longrightarrow> walk (f + k) s a ps = Some r"
  "walk_children f s cs ps = Some r \<Longrightarrow> walk_children (f + k) s cs ps = Some r"
  by (induction f s a ps and f s cs ps arbitrary: r and r rule: walk_walk_children.induct)
     (auto split: sum.splits option.splits)

lemma run_follows:
  assumes "tree h t" and "run f h (root t) = Some r"
  shows "walk_tree \<lparr>heap = h, namespaces = Map.empty\<rparr> t [] r"
proof -
  let ?s = "\<lparr>heap = h, namespaces = Map.empty\<rparr>"
  have "walk (f + height t) ?s (root t) [] = Some r"
    using assms(2) by (simp add: run_def walk_mono(1))
  moreover obtain r' where "walk (f + height t) ?s (root t) [] = Some r'" "walk_tree ?s t [] r'"
    using walk_follows [of t "f + height t" ?s "[]"] assms(1) by (auto simp: tree_def)
  ultimately show ?thesis by simp
qed

lemma run_final:
  assumes "tree h t" and "run f h (root t) = Some (Inr s')"
    and "(qs, u) \<in> set (visits h [] t)"
  shows "heap s' (root u) = final_node (h (root u)) h qs u"
  using walk_tree_final(1) [OF run_follows [OF assms(1,2)] refl, of h qs u] assms(1,3)
  by (simp add: core_eq_refl tree_def)

lemma run_frame:
  assumes "tree h t" and "run f h (root t) = Some (Inr s')"
    and "x \<notin> set (addrs (kept h t))"
  shows "heap s' x = h x"
  using walk_tree_frame(1) [OF run_follows [OF assms(1,2)] refl, of h x] assms(3)
  by (simp add: core_eq_refl)

lemma run_registry:
  assumes "tree h t" and "run f h (root t) = Some (Inr s')"
  shows "namespaces s' = map_of (rev (regs h [] t))"
  using walk_tree_registry(1) [OF run_follows [OF assms(1,2)] refl, of h]
  by (simp add: core_eq_refl)

lemma run_total:
  assumes "tree h t" and "height t \<le> f"
  shows "\<exists>r. run f h (root t) = Some r"
  using walk_follows [of t f "\<lparr>heap = h, namespaces = Map.empty\<rparr>" "[]"] assms
  by (auto simp: tree_def run_def)

lemma run_error:
  assumes "tree h t" and "run f h (root t) = Some r"
  shows "isl r = list_ex (\<lambda>(qs, u). raises h u) (visits h [] t)"
  using walk_tree_error(1) [OF run_follows [OF assms], of h] by (simp add: core_eq_refl)

lemma visits_repr: "repr h t \<Longrightarrow> (qs, u) \<in> set (visits h ps t) \<Longrightarrow> repr h u"
proof (induction t arbitrary: ps)
  case (Shape a ss)
  then show ?case by (fastforce simp: list_all_iff)
qed

lemma repr_link: "repr h u \<Longrightarrow> child_list (h (root u)) = map root (subs u)"
  by (cases u) simp

lemma container_heap:
  "child_list (h (root u)) = map root (subs u) \<Longrightarrow> container h u = pure_container h (root u)"
  by (simp add: pure_container_def container_def hasNonNamespaceChild_def list_ex_iff)

lemma registers_heap:
  "child_list (h (root u)) = map root (subs u) \<Longrightarrow>
   registers h u = (kindString (h (root u)) = Some ''Namespace'' \<and> hasNonNamespaceChild h (root u))"
  by (simp add: registers_def hasNonNamespaceChild_def list_ex_iff)

lemma addrs_kept_visits: "addrs (kept h t) = map (\<lambda>(qs, u). root u) (visits h ps t)"
proof (induction t arbitrary: ps)
  case (Shape a ss)
  have eq: "map (\<lambda>u. addrs (kept h u)) (filter (\<lambda>u. filter_node (h (root u))) ss) =
        map (\<lambda>u. map (\<lambda>(qs, u). root u) (visits h (ps @ [a]) u))
          (filter (\<lambda>u. filter_node (h (root u))) ss)"
    by (rule map_cong [OF refl]) (simp add: Shape.IH)
  show ?case by (simp add: map_concat comp_def eq)
qed

lemma repr_kept:
  "(\<And>qs u. (qs, u) \<in> set (visits h ps t) \<Longrightarrow>
      child_list (h' (root u)) = map root (filter (\<lambda>v. filter_node (h (root v))) (subs u))) \<Longrightarrow>
   repr h' (kept h t)"
proof (induction t arbitrary: ps)
  case (Shape a ss)
  have top: "child_list (h' a) = map root (filter (\<lambda>v. filter_node (h (root v))) ss)"
    using Shape.prems [of ps "Shape a ss"] by simp
  have "repr h' (kept h v)" if "v \<in> set ss" "filter_node (h (root v))" for v
  proof (rule Shape.IH [OF that(1), of "ps @ [a]"])
    fix qs u assume "(qs, u) \<in> set (visits h (ps @ [a]) v)"
    then have "(qs, u) \<in> set (visits h ps (Shape a ss))" using that by auto
    then show "child_list (h' (root u)) =
                 map root (filter (\<lambda>v. filter_node (h (root v))) (subs u))"
      by (rule Shape.prems)
  qed
  then show ?case using top by (simp add: list_all_iff comp_def root_kept)
qed

lemma child_list_final:
  "child_list n = map root (subs u) \<Longrightarrow>
   child_list (final_node n h qs u) = map root (filter (\<lambda>v. filter_node (h (root v))) (subs u))"
  by (cases "children n") (auto simp: final_node_def child_list_def)

lemma run_repr:
  assumes "tree h t" and "run f h (root t) = Some (Inr s')"
  shows "repr (heap s') (kept h t)"
proof (rule repr_kept [of h "[]"])
  fix qs u assume m: "(qs, u) \<in> set (visits h [] t)"
  have "child_list (h (root u)) = map root (subs u)"
    using visits_repr [OF _ m] assms(1) by (simp add: tree_def repr_link)
  then show "child_list (heap s' (root u)) =
               map root (filter (\<lambda>v. filter_node (h (root v))) (subs u))"
    by (simp add: run_final [OF assms m] child_list_final)
qed

section \<open>The tag parser: channel and permissions\<close>

lemma process_tag_channel:
  "channel (fst (process_tag st t)) =
     (if tag t = ''chrome-channel'' then trim (tag_text t) else channel (fst st))"
  by (simp add: process_tag_def Let_def)

lemma process_tag_permissions:
  "permissions (fst (process_tag st t)) =
     (if tag t = ''chrome-permission''
      then Some ((case permissions (fst st) of None \<Rightarrow> [] | Some ps \<Rightarrow> ps) @ [trim (tag_text t)])
      else permissions (fst st))"
  by (simp add: process_tag_def Let_def)

lemma processTags_snoc:
  "processTags (ts @ [t]) =
     fst (process_tag (foldl process_tag (initial_feature, initial_deprecation) ts) t)"
  by (simp add: processTags_def)

lemma channel_of_tags:
  "channel (processTags ts) =
     (if filter (\<lambda>t. tag t = ''chrome-channel'') ts = [] then ''stable''
      else trim (tag_text (last (filter (\<lambda>t. tag t = ''chrome-channel'') ts))))"
proof (induction ts rule: rev_induct)
  case Nil
  show ?case by (simp add: processTags_def initial_feature_def)
next
  case (snoc t ts)
  have prev: "channel (fst (foldl process_tag (initial_feature, initial_deprecation) ts)) =
     (if filter (\<lambda>t. tag t = ''chrome-channel'') ts = [] then ''stable''
      else trim (tag_text (last (filter (\<lambda>t. tag t = ''chrome-channel'') ts))))"
    using snoc.IH by (simp add: processTags_def)
  show ?case
    by (simp add: processTags_snoc process_tag_channel prev)
qed

text \<open>
  Claim C5. For every tag sequence, \<open>permissions\<close> of the computed feature record is the
  list of the trimmed texts of the \<^verbatim>\<open>chrome-permission\<close> tags, in the order of the tags
  and with repeats kept; the field is absent when the sequence has no
  \<^verbatim>\<open>chrome-permission\<close> tag.
\<close>

theorem permissions_in_encounter_order:
  "permissions (processTags ts) =
     (if filter (\<lambda>t. tag t = ''chrome-permission'') ts = [] then None
      else Some (map (\<lambda>t. trim (tag_text t))
                   (filter (\<lambda>t. tag t = ''chrome-permission'') ts)))"
proof (induction ts rule: rev_induct)
  case Nil
  show ?case by (simp add: processTags_def initial_feature_def)
next
  case (snoc t ts)
  have prev: "permissions (fst (foldl process_tag (initial_feature, initial_deprecation) ts)) =
     (if filter (\<lambda>t. tag t = ''chrome-permission'') ts = [] then None
      else Some (map (\<lambda>t. trim (tag_text t))
                   (filter (\<lambda>t. tag t = ''chrome-permission'') ts)))"
    using snoc.IH by (simp add: processTags_def)
  show ?case
    by (simp add: processTags_snoc process_tag_permissions prev)
qed

lemma trim_examples:
  "trim ''tabs '' = ''tabs''" "trim ''history'' = ''history''" "trim '' tabs'' = ''tabs''"
  "trim ''gone'' = ''gone''" "trim ''Chrome 90'' = ''Chrome 90''"
  by (simp_all add: trim_def white_space_def startsWith_def)

theorem permissions_in_encounter_order_witness:
  "permissions (processTags
      [\<lparr>tag = ''chrome-permission'', tag_text = ''tabs ''\<rparr>,
       \<lparr>tag = ''deprecated'', tag_text = ''gone''\<rparr>,
       \<lparr>tag = ''chrome-permission'', tag_text = ''history''\<rparr>,
       \<lparr>tag = ''chrome-permission'', tag_text = '' tabs''\<rparr>])
     = Some [''tabs'', ''history'', ''tabs'']
   \<and> permissions (processTags [\<lparr>tag = ''since'', tag_text = ''Chrome 90''\<rparr>]) = None"
  using permissions_in_encounter_order [of
      "[\<lparr>tag = ''chrome-permission'', tag_text = ''tabs ''\<rparr>,
       \<lparr>tag = ''deprecated'', tag_text = ''gone''\<rparr>,
       \<lparr>tag = ''chrome-permission'', tag_text = ''history''\<rparr>,
       \<lparr>tag = ''chrome-permission'', tag_text = '' tabs''\<rparr>]"]
    permissions_in_encounter_order [of "[\<lparr>tag = ''since'', tag_text = ''Chrome 90''\<rparr>]"]
  by (simp add: trim_examples)

section \<open>Evaluating the example stores\<close>

lemmas eval_defs =
  run_def visit_eq pure_container_def hasNonNamespaceChild_def child_list_def decl_node_def
  blank_def event_of_def filter_node_def startsWith_def visited_node_def set_node_def
  chromeEventRefTypes_def first_argument_def signature_parameters_def fqdn_of_def
  node_tags_def event_type_def callback_type_def never_type_def

lemma api_at:
  "api_heap 0 = decl_node ''api'' ''Project'' (Some [1, 5, 7])"
  "api_heap 1 = (decl_node ''tabs'' ''Namespace'' (Some [2, 3, 4]))
               \<lparr>comment := Some \<lparr>tags = Some [\<lparr>tag = ''chrome-permission'', tag_text = ''tabs''\<rparr>]\<rparr>\<rparr>"
  "api_heap 2 = (decl_node ''Tab'' ''Interface'' None)\<lparr>comment := Some \<lparr>tags = Some tab_tags\<rparr>\<rparr>"
  "api_heap 3 = decl_node ''_Internal'' ''Interface'' None"
  "api_heap 4 = (decl_node ''onUpdated'' ''Variable'' None)
               \<lparr>type := Some (event_type ''Event'' callback_type)\<rparr>"
  "api_heap 5 = decl_node ''runtime'' ''Namespace'' (Some [6])"
  "api_heap 6 = (decl_node ''Port'' ''Interface'' None)\<lparr>flags := Some \<lparr>isPrivate = Some True\<rparr>\<rparr>"
  "api_heap 7 = decl_node ''devtools'' ''Namespace'' (Some [8])"
  "api_heap 8 = decl_node ''panels'' ''Namespace'' (Some [9])"
  "api_heap 9 = decl_node ''create'' ''Function'' None"
  "api_heap (Suc 0) = api_heap 1"
  by (simp_all add: api_heap_def)

lemma api_tree: "tree api_heap api_shape"
  by (simp add: tree_def api_shape_def api_at child_list_def decl_node_def blank_def
        del: One_nat_def)

lemma api_run: "\<exists>s'. run 4 api_heap (root api_shape) = Some (Inr s')"
proof -
  have "(case run 4 api_heap 0 of Some (Inr s) \<Rightarrow> True | _ \<Rightarrow> False)"
    by code_simp
  then show ?thesis by (auto simp: api_shape_def split: option.splits sum.splits)
qed

lemma api_visits:
  "visits api_heap [] api_shape =
     [([], api_shape),
      ([0], Shape 1 [Shape 2 [], Shape 3 [], Shape 4 []]), ([0, 1], Shape 2 []),
      ([0, 1], Shape 4 []), ([0], Shape 5 [Shape 6 []]),
      ([0], Shape 7 [Shape 8 [Shape 9 []]]), ([0, 7], Shape 8 [Shape 9 []]),
      ([0, 7, 8], Shape 9 [])]"
  by (simp add: api_shape_def api_at eval_defs del: One_nat_def)

lemma api_kept:
  "kept api_heap api_shape =
     Shape 0 [Shape 1 [Shape 2 [], Shape 4 []], Shape 5 [], Shape 7 [Shape 8 [Shape 9 []]]]"
  by (simp add: api_shape_def api_at eval_defs del: One_nat_def)

section \<open>The registry\<close>

lemma regs_mem:
  "(k, x) \<in> set (regs h ps t) \<longleftrightarrow>
     (\<exists>qs u. (qs, u) \<in> set (visits h ps t) \<and> registers h u
             \<and> k = fqdn_of h qs (root u) \<and> x = root u)"
  by (auto simp: regs_def)

lemma map_of_unique:
  assumes "(k, v) \<in> set xs" and "\<And>v'. (k, v') \<in> set xs \<Longrightarrow> v' = v"
  shows "map_of xs k = Some v"
proof -
  obtain y where y: "map_of xs k = Some y"
    using weak_map_of_SomeI [OF assms(1)] by blast
  then have "(k, y) \<in> set xs" by (rule map_of_SomeD)
  then show ?thesis using assms(2) y by simp
qed

lemma visits_link:
  "tree h t \<Longrightarrow> (qs, u) \<in> set (visits h ps t) \<Longrightarrow>
   child_list (h (root u)) = map root (subs u)"
  using visits_repr [of h t qs u ps] by (simp add: tree_def repr_link)

lemma run_registered:
  assumes t: "tree h t" and r: "run f h (root t) = Some (Inr s')"
    and m: "(qs, u) \<in> set (visits h [] t)"
    and k: "kindString (h (root u)) = Some ''Namespace''"
    and c: "hasNonNamespaceChild h (root u)"
    and uniq: "\<forall>(qs', u') \<in> set (visits h [] t).
                 kindString (h (root u')) = Some ''Namespace''
                 \<and> hasNonNamespaceChild h (root u')
                 \<and> fqdn_of h qs' (root u') = fqdn_of h qs (root u)
                 \<longrightarrow> root u' = root u"
  shows "namespaces s' (fqdn_of h qs (root u)) = Some (root u)"
proof -
  have "registers h u"
    using k c by (simp add: registers_heap [of h u, OF visits_link [OF t m]])
  then have mem: "(fqdn_of h qs (root u), root u) \<in> set (rev (regs h [] t))"
    using m by (auto simp: regs_mem)
  have only: "v' = root u" if "(fqdn_of h qs (root u), v') \<in> set (rev (regs h [] t))" for v'
  proof -
    have "(fqdn_of h qs (root u), v') \<in> set (regs h [] t)"
      using that by simp
    then obtain qs' u' where u': "(qs', u') \<in> set (visits h [] t)" "registers h u'"
        "fqdn_of h qs (root u) = fqdn_of h qs' (root u')" "v' = root u'"
      using regs_mem [of "fqdn_of h qs (root u)" v' h "[]" t] by blast
    have "kindString (h (root u')) = Some ''Namespace'' \<and> hasNonNamespaceChild h (root u')"
      using u'(2) by (simp add: registers_heap [of h u', OF visits_link [OF t u'(1)]])
    then show ?thesis using uniq u' by fastforce
  qed
  show ?thesis
    unfolding run_registry [OF t r] using mem only by (rule map_of_unique)
qed

lemma run_registered_only:
  assumes t: "tree h t" and r: "run f h (root t) = Some (Inr s')"
    and n: "namespaces s' k = Some x"
  shows "\<exists>qs u. (qs, u) \<in> set (visits h [] t) \<and> root u = x
           \<and> kindString (h x) = Some ''Namespace'' \<and> hasNonNamespaceChild h x
           \<and> k = fqdn_of h qs x"
proof -
  have "(k, x) \<in> set (regs h [] t)"
    using n map_of_SomeD [of "rev (regs h [] t)" k x] by (simp add: run_registry [OF t r])
  then obtain qs u where u: "(qs, u) \<in> set (visits h [] t)" "registers h u"
      "k = fqdn_of h qs (root u)" "x = root u"
    by (auto simp: regs_mem)
  then show ?thesis
    using registers_heap [of h u, OF visits_link [OF t u(1)]] by auto
qed

text \<open>
  Claim C1 as stated fails. In \<open>private_namespace_heap\<close> the node at address 1 is a
  namespace with a child that is an interface, and the child filter removes it with the
  other children of the project: the run returns a registry that holds the node under
  no name.
\<close>

theorem private_namespace_not_registered:
  "kindString (private_namespace_heap 1) = Some ''Namespace''
   \<and> hasNonNamespaceChild private_namespace_heap 1
   \<and> (\<exists>s'. run 3 private_namespace_heap 0 = Some (Inr s')
           \<and> (\<forall>k. namespaces s' k \<noteq> Some 1))"
  by (simp add: eval_defs private_namespace_heap_def numeral_3_eq_3)

text \<open>
  Claim C1, amended. Let the run on a tree return. Take a namespace node of the input
  that is retained (the root, or reached from it through children that pass the child
  filter), with its ancestors \<open>qs\<close>, and let no other retained namespace that has a
  non-namespace child have the same fully-qualified name. Then the node is in the
  returned registry if and only if one of its children, in the child list of the input,
  has a \<^verbatim>\<open>kindString\<close> other than \<^verbatim>\<open>Namespace\<close>, and then it is stored under the dot-join
  of the names of its ancestors that are not of kind \<^verbatim>\<open>Project\<close> followed by its own name,
  empty names dropped.
\<close>

theorem registry_of_retained_namespaces:
  assumes "tree h t" and "run f h (root t) = Some (Inr s')"
    and "(qs, u) \<in> set (visits h [] t)"
    and "kindString (h (root u)) = Some ''Namespace''"
    and "\<forall>(qs', u') \<in> set (visits h [] t).
           kindString (h (root u')) = Some ''Namespace''
           \<and> hasNonNamespaceChild h (root u')
           \<and> fqdn_of h qs' (root u') = fqdn_of h qs (root u)
           \<longrightarrow> root u' = root u"
  shows "((\<exists>k. namespaces s' k = Some (root u)) \<longleftrightarrow> hasNonNamespaceChild h (root u))
       \<and> (hasNonNamespaceChild h (root u) \<longrightarrow>
            namespaces s'
              (join ''.'' (filter (\<lambda>x. x \<noteq> [])
                 (map (\<lambda>p. name (h p)) (filter (\<lambda>p. kindString (h p) \<noteq> Some ''Project'') qs)
                  @ [name (h (root u))])))
            = Some (root u))"
proof -
  have there: "namespaces s' (fqdn_of h qs (root u)) = Some (root u)"
    if "hasNonNamespaceChild h (root u)"
    using run_registered [OF assms(1,2,3,4) that assms(5)] .
  have only: "hasNonNamespaceChild h (root u)" if "namespaces s' k = Some (root u)" for k
    using run_registered_only [OF assms(1,2) that] by blast
  show ?thesis
    using there only by (auto simp: fqdn_of_def)
qed

theorem registry_of_retained_namespaces_witness:
  "tree api_heap api_shape
   \<and> (\<exists>s'. run 4 api_heap (root api_shape) = Some (Inr s')
           \<and> namespaces s' ''devtools.panels'' = Some 8
           \<and> \<not> (\<exists>k. namespaces s' k = Some 7))"
proof -
  obtain s' where r: "run 4 api_heap (root api_shape) = Some (Inr s')"
    using api_run by blast
  have m8: "([0, 7], Shape 8 [Shape 9 []]) \<in> set (visits api_heap [] api_shape)"
    and m7: "([0], Shape 7 [Shape 8 [Shape 9 []]]) \<in> set (visits api_heap [] api_shape)"
    by (simp_all add: api_visits)
  have k8: "kindString (api_heap (root (Shape 8 [Shape 9 []]))) = Some ''Namespace''"
    and k7: "kindString (api_heap (root (Shape 7 [Shape 8 [Shape 9 []]]))) = Some ''Namespace''"
    by (simp_all add: api_at decl_node_def)
  have u8: "\<forall>(qs', u') \<in> set (visits api_heap [] api_shape).
           kindString (api_heap (root u')) = Some ''Namespace''
           \<and> hasNonNamespaceChild api_heap (root u')
           \<and> fqdn_of api_heap qs' (root u') = fqdn_of api_heap [0, 7] (root (Shape 8 [Shape 9 []]))
           \<longrightarrow> root u' = root (Shape 8 [Shape 9 []])"
    by (simp add: api_visits api_shape_def api_at eval_defs del: One_nat_def)
  have u7: "\<forall>(qs', u') \<in> set (visits api_heap [] api_shape).
           kindString (api_heap (root u')) = Some ''Namespace''
           \<and> hasNonNamespaceChild api_heap (root u')
           \<and> fqdn_of api_heap qs' (root u') = fqdn_of api_heap [0] (root (Shape 7 [Shape 8 [Shape 9 []]]))
           \<longrightarrow> root u' = root (Shape 7 [Shape 8 [Shape 9 []]])"
    by (simp add: api_visits api_shape_def api_at eval_defs del: One_nat_def)
  have "namespaces s' ''devtools.panels'' = Some 8"
    using registry_of_retained_namespaces [OF api_tree r m8 k8 u8]
    by (simp add: api_at eval_defs del: One_nat_def)
  moreover have "\<not> (\<exists>k. namespaces s' k = Some 7)"
    using registry_of_retained_namespaces [OF api_tree r m7 k7 u7]
    by (simp add: api_at eval_defs del: One_nat_def)
  ultimately show ?thesis using api_tree r by blast
qed

section \<open>The computed fields\<close>

lemma kept_addr_visit:
  assumes "x \<in> set (addrs (kept h t))"
  obtains qs u where "(qs, u) \<in> set (visits h [] t)" and "root u = x"
  using assms by (auto simp: addrs_kept_visits [of h t "[]"])

text \<open>
  Claim C2 as stated fails. In \<open>nested_namespace_heap\<close> the root is a namespace whose
  only child is a namespace. After the run it is still the root of the output tree and
  its child has got its \<^verbatim>\<open>_name\<close>, while the root itself has neither \<^verbatim>\<open>_name\<close> nor
  \<^verbatim>\<open>_feature\<close>: \<^verbatim>\<open>visit\<close> returns from a pure container before it writes them.
\<close>

theorem container_without_computed_fields:
  "\<exists>s'. run 3 nested_namespace_heap 0 = Some (Inr s')
        \<and> child_list (heap s' 0) = [1]
        \<and> x_name (heap s' 0) = None \<and> x_feature (heap s' 0) = None
        \<and> x_name (heap s' 1) = Some ''chrome.tabs''"
  by (simp add: eval_defs nested_namespace_heap_def numeral_3_eq_3)

text \<open>
  Claim C2, amended. After a run that returns, the store holds the retained, pruned
  tree, and every node of it that is not a pure container (a namespace node none of
  whose input children has a \<^verbatim>\<open>kindString\<close> other than \<^verbatim>\<open>Namespace\<close>) has \<^verbatim>\<open>_name\<close> and
  \<^verbatim>\<open>_feature\<close> attached, the latter computed from the tags of its comment.
\<close>

theorem computed_fields_of_retained_nodes:
  assumes "tree h t" and "run f h (root t) = Some (Inr s')"
  shows "repr (heap s') (kept h t)
       \<and> (\<forall>x \<in> set (addrs (kept h t)).
            \<not> pure_container h x \<longrightarrow>
            x_name (heap s' x) \<noteq> None
            \<and> x_feature (heap s' x) = Some (processTags (node_tags (h x))))"
proof (intro conjI ballI impI)
  show "repr (heap s') (kept h t)" by (rule run_repr [OF assms])
next
  fix x assume x: "x \<in> set (addrs (kept h t))" and nc: "\<not> pure_container h x"
  obtain qs u where u: "(qs, u) \<in> set (visits h [] t)" "root u = x"
    using x by (rule kept_addr_visit)
  have "\<not> container h u"
    using nc u(2) container_heap [of h u, OF visits_link [OF assms(1) u(1)]] by simp
  moreover have "heap s' x = final_node (h x) h qs u"
    using run_final [OF assms u(1)] u(2) by simp
  ultimately show "x_name (heap s' x) \<noteq> None"
    and "x_feature (heap s' x) = Some (processTags (node_tags (h x)))"
    using u(2) by (simp_all add: final_node_def annotate_def)
qed

theorem computed_fields_of_retained_nodes_witness:
  "tree api_heap api_shape
   \<and> (\<exists>s'. run 4 api_heap (root api_shape) = Some (Inr s')
           \<and> repr (heap s') (kept api_heap api_shape)
           \<and> x_name (heap s' 1) \<noteq> None
           \<and> x_feature (heap s' 1) =
               Some (processTags [\<lparr>tag = ''chrome-permission'', tag_text = ''tabs''\<rparr>]))"
proof -
  obtain s' where r: "run 4 api_heap (root api_shape) = Some (Inr s')"
    using api_run by blast
  have in1: "1 \<in> set (addrs (kept api_heap api_shape))"
    by (simp add: api_kept)
  have nc: "\<not> pure_container api_heap 1"
    by (simp add: api_at eval_defs del: One_nat_def)
  have "node_tags (api_heap 1) = [\<lparr>tag = ''chrome-permission'', tag_text = ''tabs''\<rparr>]"
    by (simp add: api_at eval_defs del: One_nat_def)
  then show ?thesis
    using computed_fields_of_retained_nodes [OF api_tree r] in1 nc api_tree r by auto
qed

text \<open>
  Claim C4 as stated fails. The node of \<open>tagged_container_heap\<close> has a comment with one
  \<^verbatim>\<open>chrome-channel\<close> tag of text \<^verbatim>\<open>beta\<close>, and it is a namespace without children:
  \<^verbatim>\<open>visit\<close> returns from it before it computes a \<^verbatim>\<open>_feature\<close>, so after the run the node
  has no \<^verbatim>\<open>_feature\<close> and no channel.
\<close>

theorem container_gets_no_channel:
  "filter (\<lambda>t. tag t = ''chrome-channel'') (node_tags (tagged_container_heap 0))
     = [\<lparr>tag = ''chrome-channel'', tag_text = ''beta''\<rparr>]
   \<and> (\<exists>s'. run 1 tagged_container_heap 0 = Some (Inr s') \<and> x_feature (heap s' 0) = None)"
  by (simp add: eval_defs tagged_container_heap_def)

text \<open>
  Claim C4, amended. After a run on a tree that returns, every retained node that is not
  a pure container has a \<^verbatim>\<open>_feature\<close>, and its \<open>channel\<close> is \<^verbatim>\<open>stable\<close> when the node's
  comment has no \<^verbatim>\<open>chrome-channel\<close> tag (or the node has no comment), and otherwise the
  trimmed text of the last \<^verbatim>\<open>chrome-channel\<close> tag of the comment.
\<close>

theorem feature_channel_of_retained_node:
  assumes "tree h t" and "run f h (root t) = Some (Inr s')"
    and "x \<in> set (addrs (kept h t))"
    and "\<not> pure_container h x"
  shows "\<exists>ft. x_feature (heap s' x) = Some ft
             \<and> channel ft =
                 (if filter (\<lambda>t. tag t = ''chrome-channel'') (node_tags (h x)) = []
                  then ''stable''
                  else trim (tag_text
                         (last (filter (\<lambda>t. tag t = ''chrome-channel'') (node_tags (h x))))))"
proof -
  obtain qs u where u: "(qs, u) \<in> set (visits h [] t)" "root u = x"
    using assms(3) by (rule kept_addr_visit)
  have "\<not> container h u"
    using assms(4) u(2) container_heap [of h u, OF visits_link [OF assms(1) u(1)]] by simp
  moreover have "heap s' x = final_node (h x) h qs u"
    using run_final [OF assms(1,2) u(1)] u(2) by simp
  ultimately have "x_feature (heap s' x) = Some (processTags (node_tags (h x)))"
    using u(2) by (simp add: final_node_def annotate_def)
  then show ?thesis
    by (simp add: channel_of_tags)
qed

theorem feature_channel_of_retained_node_witness:
  "tree api_heap api_shape
   \<and> (\<exists>s'. run 4 api_heap (root api_shape) = Some (Inr s')
           \<and> (\<exists>ft. x_feature (heap s' 2) = Some ft \<and> channel ft = ''dev'')
           \<and> (\<exists>ft. x_feature (heap s' 4) = Some ft \<and> channel ft = ''stable''))"
proof -
  obtain s' where r: "run 4 api_heap (root api_shape) = Some (Inr s')"
    using api_run by blast
  have in2: "2 \<in> set (addrs (kept api_heap api_shape))"
    and in4: "4 \<in> set (addrs (kept api_heap api_shape))"
    by (simp_all add: api_kept)
  have nc2: "\<not> pure_container api_heap 2" and nc4: "\<not> pure_container api_heap 4"
    by (simp_all add: api_at eval_defs)
  have t2: "node_tags (api_heap 2) = tab_tags" and t4: "node_tags (api_heap 4) = []"
    by (simp_all add: api_at eval_defs)
  have "\<exists>ft. x_feature (heap s' 2) = Some ft \<and> channel ft = ''dev''"
    using feature_channel_of_retained_node [OF api_tree r in2 nc2]
    by (simp add: t2 tab_tags_def trim_def white_space_def startsWith_def)
  moreover have "\<exists>ft. x_feature (heap s' 4) = Some ft \<and> channel ft = ''stable''"
    using feature_channel_of_retained_node [OF api_tree r in4 nc4]
    by (simp add: t4)
  ultimately show ?thesis using api_tree r by blast
qed

section \<open>Errors\<close>

lemma isl_event_of: "isl (event_of tyo) = bad_event_reference tyo"
  by (auto simp: event_of_def bad_event_reference_def split: option.splits)

lemma raises_heap:
  "child_list (h (root u)) = map root (subs u) \<Longrightarrow>
   raises h u = (\<not> pure_container h (root u) \<and> bad_event_reference (type (h (root u))))"
  by (simp add: raises_def container_heap isl_event_of)

text \<open>
  Claim C3 as stated fails. The node of this store has the type
  \<^verbatim>\<open>CustomChromeEvent<string>\<close>: a reference to an event wrapper whose first type argument
  is an intrinsic type not named \<^verbatim>\<open>never\<close>. The run returns: for \<^verbatim>\<open>CustomChromeEvent\<close> the
  code never looks at whether the argument is intrinsic.
\<close>

theorem custom_event_with_intrinsic_argument_returns:
  "event_reference_without_never
     (type (typed_node_heap ''Variable''
        (event_type ''CustomChromeEvent'' (Ty ''intrinsic'' (Some ''string'') None None)) 0))
   \<and> (\<exists>s'. run 1 (typed_node_heap ''Variable''
               (event_type ''CustomChromeEvent'' (Ty ''intrinsic'' (Some ''string'') None None))) 0
            = Some (Inr s'))"
  by (simp add: eval_defs typed_node_heap_def event_reference_without_never_def)

text \<open>
  Claim C3, amended. On a tree, with fuel for its height, the run ends, and it ends in
  an error if and only if some retained node that is not a pure container has a type
  that is a reference to a recognized event wrapper (\<^verbatim>\<open>CustomChromeEvent\<close>,
  \<^verbatim>\<open>events.Event\<close>, \<^verbatim>\<open>Event\<close>) with no first type argument, or to a wrapper other than
  \<^verbatim>\<open>CustomChromeEvent\<close> whose first type argument is an intrinsic type not named \<^verbatim>\<open>never\<close>.
  Nothing else raises, and an error is a result without a registry.
\<close>

theorem raises_iff_bad_event_reference:
  assumes "tree h t" and "height t \<le> f"
  shows "(\<exists>r. run f h (root t) = Some r)
       \<and> ((\<exists>e. run f h (root t) = Some (Inl e)) \<longleftrightarrow>
           (\<exists>x \<in> set (addrs (kept h t)).
              \<not> pure_container h x \<and> bad_event_reference (type (h x))))"
proof -
  obtain r where r: "run f h (root t) = Some r"
    using run_total [OF assms] by blast
  have rh: "raises h u =
              (\<not> pure_container h (root u) \<and> bad_event_reference (type (h (root u))))"
    if "(qs, u) \<in> set (visits h [] t)" for qs u
    using raises_heap [of h u, OF visits_link [OF assms(1) that]] .
  have "isl r = list_ex (\<lambda>(qs, u). raises h u) (visits h [] t)"
    by (rule run_error [OF assms(1) r])
  also have "\<dots> = (\<exists>(qs, u) \<in> set (visits h [] t).
                      \<not> pure_container h (root u) \<and> bad_event_reference (type (h (root u))))"
    using rh by (fastforce simp: list_ex_iff)
  also have "\<dots> = (\<exists>x \<in> set (addrs (kept h t)).
                      \<not> pure_container h x \<and> bad_event_reference (type (h x)))"
    by (fastforce simp: addrs_kept_visits [of h t "[]"])
  finally have "isl r = (\<exists>x \<in> set (addrs (kept h t)).
                      \<not> pure_container h x \<and> bad_event_reference (type (h x)))" .
  moreover have "(\<exists>e. run f h (root t) = Some (Inl e)) = isl r"
    using r by (cases r) auto
  ultimately show ?thesis using r by simp
qed

theorem raises_iff_bad_event_reference_witness:
  "tree (typed_node_heap ''Variable'' (Ty ''reference'' (Some ''Event'') None None)) (Shape 0 [])
   \<and> height (Shape 0 []) \<le> 1
   \<and> (\<exists>e. run 1 (typed_node_heap ''Variable'' (Ty ''reference'' (Some ''Event'') None None)) 0
            = Some (Inl e))
   \<and> tree api_heap api_shape \<and> height api_shape \<le> 4
   \<and> (\<exists>s'. run 4 api_heap (root api_shape) = Some (Inr s'))"
proof -
  let ?h = "typed_node_heap ''Variable'' (Ty ''reference'' (Some ''Event'') None None)"
  have t: "tree ?h (Shape 0 [])"
    by (simp add: tree_def typed_node_heap_def eval_defs)
  have f: "height (Shape 0 []) \<le> 1" by simp
  have "\<exists>x \<in> set (addrs (kept ?h (Shape 0 []))).
          \<not> pure_container ?h x \<and> bad_event_reference (type (?h x))"
    by (simp add: typed_node_heap_def eval_defs bad_event_reference_def)
  then have e: "\<exists>e. run 1 ?h 0 = Some (Inl e)"
    using raises_iff_bad_event_reference [OF t f] by simp
  have fa: "height api_shape \<le> 4" by (simp add: api_shape_def)
  have "\<not> (\<exists>x \<in> set (addrs (kept api_heap api_shape)).
          \<not> pure_container api_heap x \<and> bad_event_reference (type (api_heap x)))"
    by (simp add: api_kept api_at eval_defs bad_event_reference_def del: One_nat_def)
  then have "\<exists>s'. run 4 api_heap (root api_shape) = Some (Inr s')"
    using raises_iff_bad_event_reference [OF api_tree fa]
    by (metis sum.exhaust)
  then show ?thesis using t f e api_tree fa by blast
qed

section \<open>Event references\<close>

text \<open>
  Claim C6 as stated fails. The node of this store has the type \<^verbatim>\<open>Event<T>\<close> with a
  reflection type \<open>T\<close>, and it is a namespace without children: \<^verbatim>\<open>visit\<close> returns from it
  before the event branch, and neither \<^verbatim>\<open>visit\<close> nor the whole run attaches an
  \<^verbatim>\<open>_event\<close>.
\<close>

theorem namespace_event_reference_gets_no_callback:
  "type (typed_node_heap ''Namespace'' (event_type ''Event'' callback_type) 0)
     = Some (event_type ''Event'' callback_type)
   \<and> ty_type callback_type \<noteq> ''intrinsic''
   \<and> (\<exists>s'. visit \<lparr>heap = typed_node_heap ''Namespace'' (event_type ''Event'' callback_type),
                    namespaces = Map.empty\<rparr> 0 [] = Inr s'
           \<and> x_event (heap s' 0) = None)
   \<and> (\<exists>s'. run 1 (typed_node_heap ''Namespace'' (event_type ''Event'' callback_type)) 0
             = Some (Inr s')
           \<and> x_event (heap s' 0) = None)"
  by (simp add: eval_defs typed_node_heap_def)

text \<open>
  Claim C6, amended. Let \<^verbatim>\<open>visit\<close> run on a node that is not a namespace without a
  non-namespace child, and whose type is a reference named \<^verbatim>\<open>Event\<close> or \<^verbatim>\<open>events.Event\<close>
  with a first type argument that is not an intrinsic type. Then \<^verbatim>\<open>visit\<close> returns, and
  the node's \<^verbatim>\<open>_event.addListenerParameters\<close> is the one-element list of the synthetic
  parameter named \<^verbatim>\<open>callback\<close> whose type is that first type argument.
\<close>

theorem event_reference_gets_callback_parameter:
  assumes "type (heap s a) = Some t"
    and "ty_type t = ''reference''"
    and "ty_name t = Some ''Event'' \<or> ty_name t = Some ''events.Event''"
    and "first_argument t = Some fa"
    and "ty_type fa \<noteq> ''intrinsic''"
    and "kindString (heap s a) = Some ''Namespace'' \<longrightarrow> hasNonNamespaceChild (heap s) a"
  shows "\<exists>s'. visit s a ps = Inr s'
             \<and> x_event (heap s' a) =
                 Some \<lparr>addListenerParameters =
                   Some [Param (- 1) ''callback'' 32768 \<lparr>isPrivate = None\<rparr> (Some fa)]\<rparr>"
proof -
  have "\<not> pure_container (heap s) a"
    using assms(6) by (simp add: pure_container_def)
  moreover have "event_of (type (heap s a)) =
      Inr (Some \<lparr>addListenerParameters =
             Some [Param (- 1) ''callback'' 32768 \<lparr>isPrivate = None\<rparr> (Some fa)]\<rparr>)"
    using assms(1-5) by (auto simp: event_of_def chromeEventRefTypes_def)
  ultimately show ?thesis
    by (simp add: visit_eq visited_node_def)
qed

theorem event_reference_gets_callback_parameter_witness:
  "\<exists>s'. visit \<lparr>heap = api_heap, namespaces = Map.empty\<rparr> 4 [0, 1] = Inr s'
        \<and> x_event (heap s' 4) =
            Some \<lparr>addListenerParameters =
              Some [Param (- 1) ''callback'' 32768 \<lparr>isPrivate = None\<rparr> (Some callback_type)]\<rparr>"
proof -
  let ?s = "\<lparr>heap = api_heap, namespaces = Map.empty\<rparr>"
  have "type (heap ?s 4) = Some (event_type ''Event'' callback_type)"
    and "ty_type (event_type ''Event'' callback_type) = ''reference''"
    and "ty_name (event_type ''Event'' callback_type) = Some ''Event''
         \<or> ty_name (event_type ''Event'' callback_type) = Some ''events.Event''"
    and "first_argument (event_type ''Event'' callback_type) = Some callback_type"
    and "ty_type callback_type \<noteq> ''intrinsic''"
    and "kindString (heap ?s 4) = Some ''Namespace'' \<longrightarrow> hasNonNamespaceChild (heap ?s) 4"
    by (simp_all add: api_at eval_defs)
  then show ?thesis
    by (rule event_reference_gets_callback_parameter)
qed

text \<open>
  Visiting a node of type \<^verbatim>\<open>Event<never>\<close> raises nothing and attaches an \<^verbatim>\<open>_event\<close>
  without \<^verbatim>\<open>addListenerParameters\<close>, unless the node is a pure container, which
  \<^verbatim>\<open>visit\<close> leaves as it is.
\<close>

lemma visit_declarative_event:
  assumes "type (heap s a) = Some t"
    and "ty_type t = ''reference''"
    and "ty_name t = Some ''Event'' \<or> ty_name t = Some ''events.Event''"
    and "first_argument t = Some fa"
    and "ty_type fa = ''intrinsic''"
    and "ty_name fa = Some ''never''"
  shows "\<exists>s'. visit s a ps = Inr s'
             \<and> x_event (heap s' a) =
                 (if kindString (heap s a) = Some ''Namespace''
                     \<and> \<not> hasNonNamespaceChild (heap s) a
                  then x_event (heap s a)
                  else Some \<lparr>addListenerParameters = None\<rparr>)"
proof -
  have "event_of (type (heap s a)) = Inr (Some \<lparr>addListenerParameters = None\<rparr>)"
    using assms by (auto simp: event_of_def chromeEventRefTypes_def)
  then show ?thesis
    by (simp add: visit_eq visited_node_def pure_container_def)
qed

text \<open>
  Claim C7 as stated fails. In \<open>raising_sibling_heap\<close> the first child of the project has
  the type \<^verbatim>\<open>Event<never>\<close> and the second the type \<^verbatim>\<open>Event\<close> without type arguments:
  the first is visited without an error, the second raises, and the transformation
  ends in that error.
\<close>

theorem declarative_event_beside_raising_event:
  "type (raising_sibling_heap 1) = Some (event_type ''Event'' never_type)
   \<and> run 2 raising_sibling_heap 0 = Some (Inl (NoArgument (Some ''Event'')))"
  by (simp add: eval_defs raising_sibling_heap_def numeral_2_eq_2)

text \<open>
  Claim C7, amended. Let \<open>x\<close> be a node whose type is a reference named \<^verbatim>\<open>Event\<close> or
  \<^verbatim>\<open>events.Event\<close> with a first type argument that is the intrinsic type \<^verbatim>\<open>never\<close>, in a
  tree where no other retained node raises (each is a pure container or has no bad event
  reference). Then the transformation succeeds, and no \<^verbatim>\<open>addListenerParameters\<close> is set
  on \<open>x\<close>: when \<open>x\<close> is retained and not a pure container its \<^verbatim>\<open>_event\<close> is a fresh object
  without that field, and otherwise its \<^verbatim>\<open>_event\<close> is whatever it was before.
\<close>

theorem declarative_event_run_succeeds:
  assumes "tree h t" and "height t \<le> f"
    and "type (h x) = Some ty"
    and "ty_type ty = ''reference''"
    and "ty_name ty = Some ''Event'' \<or> ty_name ty = Some ''events.Event''"
    and "first_argument ty = Some fa"
    and "ty_type fa = ''intrinsic''"
    and "ty_name fa = Some ''never''"
    and "\<forall>y \<in> set (addrs (kept h t)).
           y \<noteq> x \<longrightarrow> pure_container h y \<or> \<not> bad_event_reference (type (h y))"
  shows "\<exists>s'. run f h (root t) = Some (Inr s')
             \<and> x_event (heap s' x) =
                 (if x \<in> set (addrs (kept h t)) \<and> \<not> pure_container h x
                  then Some \<lparr>addListenerParameters = None\<rparr>
                  else x_event (h x))"
proof -
  have ev: "event_of (type (h x)) = Inr (Some \<lparr>addListenerParameters = None\<rparr>)"
    using assms(3-8) by (auto simp: event_of_def chromeEventRefTypes_def)
  then have nb: "\<not> bad_event_reference (type (h x))"
    using isl_event_of [of "type (h x)"] by simp
  obtain r where r: "run f h (root t) = Some r"
    using run_total [OF assms(1,2)] by blast
  have quiet: "\<not> raises h u" if m: "(qs, u) \<in> set (visits h [] t)" for qs u
  proof -
    have "root u \<in> set (addrs (kept h t))"
      using m by (force simp: addrs_kept_visits [of h t "[]"])
    then have "pure_container h (root u) \<or> \<not> bad_event_reference (type (h (root u)))"
      using assms(9) nb by (cases "root u = x") auto
    then show ?thesis
      using raises_heap [of h u, OF visits_link [OF assms(1) m]] by simp
  qed
  have "isl r = list_ex (\<lambda>(qs, u). raises h u) (visits h [] t)"
    by (rule run_error [OF assms(1) r])
  then have "\<not> isl r"
    using quiet by (auto simp: list_ex_iff)
  then obtain s' where s': "r = Inr s'"
    by (cases r) auto
  have run: "run f h (root t) = Some (Inr s')"
    using r s' by simp
  have "x_event (heap s' x) =
          (if x \<in> set (addrs (kept h t)) \<and> \<not> pure_container h x
           then Some \<lparr>addListenerParameters = None\<rparr> else x_event (h x))"
  proof (cases "x \<in> set (addrs (kept h t))")
    case True
    then obtain qs u where u: "(qs, u) \<in> set (visits h [] t)" "root u = x"
      by (rule kept_addr_visit)
    have c: "container h u = pure_container h x"
      using u(2) container_heap [of h u, OF visits_link [OF assms(1) u(1)]] by simp
    have "heap s' x = final_node (h x) h qs u"
      using run_final [OF assms(1) run u(1)] u(2) by simp
    then show ?thesis
      using True c ev u(2) by (simp add: final_node_def annotate_def)
  next
    case False
    then show ?thesis
      by (simp add: run_frame [OF assms(1) run])
  qed
  then show ?thesis using run by blast
qed

theorem declarative_event_run_succeeds_witness:
  "tree declarative_heap declarative_shape
   \<and> height declarative_shape \<le> 2
   \<and> (\<exists>s'. run 2 declarative_heap (root declarative_shape) = Some (Inr s')
           \<and> x_event (heap s' 1) = Some \<lparr>addListenerParameters = None\<rparr>)"
proof -
  have at: "declarative_heap 0 = decl_node ''api'' ''Project'' (Some [1, 2])"
    "declarative_heap 1 = (decl_node ''onRequest'' ''Variable'' None)
                             \<lparr>type := Some (event_type ''Event'' never_type)\<rparr>"
    "declarative_heap 2 = (decl_node ''onUpdated'' ''Variable'' None)
                             \<lparr>type := Some (event_type ''events.Event'' callback_type)\<rparr>"
    "declarative_heap (Suc 0) = declarative_heap 1"
    by (simp_all add: declarative_heap_def)
  have t: "tree declarative_heap declarative_shape"
    by (simp add: tree_def declarative_shape_def at child_list_def decl_node_def blank_def
          del: One_nat_def)
  have f: "height declarative_shape \<le> 2"
    by (simp add: declarative_shape_def)
  have k: "kept declarative_heap declarative_shape = declarative_shape"
    by (simp add: declarative_shape_def at eval_defs del: One_nat_def)
  have ty: "type (declarative_heap 1) = Some (event_type ''Event'' never_type)"
    and "ty_type (event_type ''Event'' never_type) = ''reference''"
    and "ty_name (event_type ''Event'' never_type) = Some ''Event''
         \<or> ty_name (event_type ''Event'' never_type) = Some ''events.Event''"
    and "first_argument (event_type ''Event'' never_type) = Some never_type"
    and "ty_type never_type = ''intrinsic''"
    and "ty_name never_type = Some ''never''"
    by (simp_all add: at eval_defs del: One_nat_def)
  moreover have "\<forall>y \<in> set (addrs (kept declarative_heap declarative_shape)).
           y \<noteq> 1 \<longrightarrow> pure_container declarative_heap y
                        \<or> \<not> bad_event_reference (type (declarative_heap y))"
    by (simp add: k declarative_shape_def at eval_defs bad_event_reference_def
          del: One_nat_def)
  ultimately have "\<exists>s'. run 2 declarative_heap (root declarative_shape) = Some (Inr s')
      \<and> x_event (heap s' 1) =
          (if 1 \<in> set (addrs (kept declarative_heap declarative_shape))
              \<and> \<not> pure_container declarative_heap 1
           then Some \<lparr>addListenerParameters = None\<rparr>
           else x_event (declarative_heap 1))"
    by (rule declarative_event_run_succeeds [OF t f])
  then show ?thesis
    using t f by (simp add: k declarative_shape_def at eval_defs del: One_nat_def)
qed

text \<open>
  Claim C8 as stated fails. The node of this store has the type
  \<^verbatim>\<open>CustomChromeEvent<T>\<close>, where \<open>T\<close> is a reflection type with a call signature of one
  parameter, and it is a namespace without children: \<^verbatim>\<open>visit\<close> returns from it before
  the event branch and no \<^verbatim>\<open>_event\<close> is attached.
\<close>

theorem namespace_custom_event_gets_no_parameters:
  "type (typed_node_heap ''Namespace'' (event_type ''CustomChromeEvent'' callback_type) 0)
     = Some (event_type ''CustomChromeEvent'' callback_type)
   \<and> ty_type callback_type = ''reflection''
   \<and> signature_parameters callback_type = Some [tab_parameter]
   \<and> (\<exists>s'. visit \<lparr>heap = typed_node_heap ''Namespace''
                             (event_type ''CustomChromeEvent'' callback_type),
                    namespaces = Map.empty\<rparr> 0 [] = Inr s'
           \<and> x_event (heap s' 0) = None)
   \<and> (\<exists>s'. run 1 (typed_node_heap ''Namespace''
                      (event_type ''CustomChromeEvent'' callback_type)) 0
             = Some (Inr s')
           \<and> x_event (heap s' 0) = None)"
  by (simp add: eval_defs typed_node_heap_def)

text \<open>
  Claim C8, amended. Let \<^verbatim>\<open>visit\<close> run on a node that is not a namespace without a
  non-namespace child, and whose type is a reference named \<^verbatim>\<open>CustomChromeEvent\<close> with a
  first type argument that is a reflection type whose declaration has a call signature.
  Then \<^verbatim>\<open>visit\<close> returns, and the node's \<^verbatim>\<open>_event.addListenerParameters\<close> is the
  \<^verbatim>\<open>parameters\<close> of the first call signature.
\<close>

theorem custom_event_gets_signature_parameters:
  assumes "type (heap s a) = Some t"
    and "ty_type t = ''reference''"
    and "ty_name t = Some ''CustomChromeEvent''"
    and "first_argument t = Some fa"
    and "ty_type fa = ''reflection''"
    and "ty_declaration fa = Some d"
    and "signatures d = Some (sg # sgs)"
    and "kindString (heap s a) = Some ''Namespace'' \<longrightarrow> hasNonNamespaceChild (heap s) a"
  shows "\<exists>s'. visit s a ps = Inr s'
             \<and> x_event (heap s' a) = Some \<lparr>addListenerParameters = parameters sg\<rparr>"
proof -
  have "\<not> pure_container (heap s) a"
    using assms(8) by (simp add: pure_container_def)
  moreover have "signature_parameters fa = parameters sg"
    using assms(6,7) by (simp add: signature_parameters_def)
  then have "event_of (type (heap s a)) = Inr (Some \<lparr>addListenerParameters = parameters sg\<rparr>)"
    using assms(1-4) by (auto simp: event_of_def chromeEventRefTypes_def)
  ultimately show ?thesis
    by (simp add: visit_eq visited_node_def)
qed

theorem custom_event_gets_signature_parameters_witness:
  "\<exists>s'. visit \<lparr>heap = typed_node_heap ''Variable''
                        (event_type ''CustomChromeEvent'' callback_type),
                namespaces = Map.empty\<rparr> 0 [] = Inr s'
        \<and> x_event (heap s' 0) = Some \<lparr>addListenerParameters = Some [tab_parameter]\<rparr>"
proof -
  let ?t = "event_type ''CustomChromeEvent'' callback_type"
  let ?s = "\<lparr>heap = typed_node_heap ''Variable'' ?t, namespaces = Map.empty\<rparr>"
  have "type (heap ?s 0) = Some ?t"
    and "ty_type ?t = ''reference''"
    and "ty_name ?t = Some ''CustomChromeEvent''"
    and "first_argument ?t = Some callback_type"
    and "ty_type callback_type = ''reflection''"
    and "ty_declaration callback_type = Some (Decl (Some [Sig (Some [tab_parameter])]))"
    and "signatures (Decl (Some [Sig (Some [tab_parameter])]))
           = Some (Sig (Some [tab_parameter]) # [])"
    and "kindString (heap ?s 0) = Some ''Namespace'' \<longrightarrow> hasNonNamespaceChild (heap ?s) 0"
    by (simp_all add: typed_node_heap_def eval_defs)
  from custom_event_gets_signature_parameters [OF this, of "[]"]
  show ?thesis by simp
qed

text \<open>
  The \<^verbatim>\<open>_event\<close> that \<^verbatim>\<open>visit\<close> attaches is still the node's \<^verbatim>\<open>_event\<close> when the run on a
  tree returns.
\<close>

lemma run_keeps_event:
  assumes "tree h t" and "run f h (root t) = Some (Inr s')"
    and "(qs, u) \<in> set (visits h [] t)"
    and "\<not> pure_container h (root u)"
    and "event_of (type (h (root u))) = Inr (Some e)"
  shows "x_event (heap s' (root u)) = Some e"
proof -
  have "\<not> container h u"
    using assms(4) container_heap [of h u, OF visits_link [OF assms(1,3)]] by simp
  then show ?thesis
    using assms(5) by (simp add: run_final [OF assms(1,2,3)] final_node_def annotate_def)
qed

section \<open>Pruned children\<close>

lemma kept_passes_filter:
  "x \<in> set (addrs (kept h t)) \<Longrightarrow> x \<noteq> root t \<Longrightarrow> filter_node (h x)"
proof (induction t)
  case (Shape a ss)
  then obtain v where v: "v \<in> set ss" "filter_node (h (root v))" "x \<in> set (addrs (kept h v))"
    by auto
  show ?case
  proof (cases "x = root v")
    case True
    then show ?thesis using v(2) by simp
  next
    case False
    then show ?thesis using Shape.IH [OF v(1) v(3)] by simp
  qed
qed

lemma repr_children_subset:
  "repr h t \<Longrightarrow> p \<in> set (addrs t) \<Longrightarrow> set (child_list (h p)) \<subseteq> set (addrs t)"
proof (induction t)
  case (Shape a ss)
  show ?case
  proof (cases "p = a")
    case True
    have "root v \<in> set (addrs v)" for v by (rule root_in_addrs)
    then show ?thesis using Shape.prems(1) True by auto
  next
    case False
    then obtain v where v: "v \<in> set ss" "p \<in> set (addrs v)"
      using Shape.prems(2) by auto
    then have "repr h v" using Shape.prems(1) by (simp add: list_all_iff)
    then have "set (child_list (h p)) \<subseteq> set (addrs v)"
      using Shape.IH [OF v(1)] v(2) by simp
    then show ?thesis using v(1) by auto
  qed
qed

lemma run_core:
  assumes "tree h t" and "run f h (root t) = Some (Inr s')"
  shows "core_eq (heap s') h"
  using walk_tree_core(1) [OF run_follows [OF assms] refl] by simp

lemma run_children:
  assumes "tree h t" and "run f h (root t) = Some (Inr s')"
    and "(qs, u) \<in> set (visits h [] t)"
  shows "set (child_list (heap s' (root u))) =
           {c \<in> set (child_list (h (root u))). filter_node (h c)}"
proof -
  have link: "child_list (h (root u)) = map root (subs u)"
    by (rule visits_link [OF assms(1,3)])
  have "child_list (heap s' (root u)) =
          map root (filter (\<lambda>v. filter_node (h (root v))) (subs u))"
    by (simp add: run_final [OF assms] child_list_final [OF link])
  then show ?thesis using link by auto
qed

text \<open>
  Claim C9. Let the run on a tree return, and let \<open>x\<close> be a node other than the root whose
  flags mark it private or whose name starts with an underscore. Then \<open>x\<close> is not a node
  of the output tree, which is what the store holds below the root after the run; no
  node of the output tree has \<open>x\<close> in its children list; the node at \<open>x\<close> is as it was,
  field for field, so it has been given no \<^verbatim>\<open>_name\<close>, \<^verbatim>\<open>_feature\<close> or \<^verbatim>\<open>_event\<close>; and the
  registry holds \<open>x\<close> under no name.
\<close>

theorem pruned_node_is_removed_and_untouched:
  assumes "tree h t" and "run f h (root t) = Some (Inr s')"
    and "x \<noteq> root t"
    and "(\<exists>fl. flags (h x) = Some fl \<and> isPrivate fl = Some True) \<or> startsWith (name (h x)) ''_''"
  shows "repr (heap s') (kept h t)
       \<and> x \<notin> set (addrs (kept h t))
       \<and> (\<forall>p \<in> set (addrs (kept h t)). x \<notin> set (child_list (heap s' p)))
       \<and> heap s' x = h x
       \<and> (\<forall>k. namespaces s' k \<noteq> Some x)"
proof -
  have nf: "\<not> filter_node (h x)"
    using assms(4) by (auto simp: filter_node_def)
  have out: "x \<notin> set (addrs (kept h t))"
    using kept_passes_filter [of x h t] assms(3) nf by blast
  have rp: "repr (heap s') (kept h t)"
    by (rule run_repr [OF assms(1,2)])
  have ch: "x \<notin> set (child_list (heap s' p))" if "p \<in> set (addrs (kept h t))" for p
    using repr_children_subset [OF rp that] out by blast
  have fr: "heap s' x = h x"
    by (rule run_frame [OF assms(1,2) out])
  have "namespaces s' k \<noteq> Some x" for k
  proof
    assume "namespaces s' k = Some x"
    then obtain qs u where "(qs, u) \<in> set (visits h [] t)" "root u = x"
      using run_registered_only [OF assms(1,2)] by blast
    then have "x \<in> set (addrs (kept h t))"
      by (force simp: addrs_kept_visits [of h t "[]"])
    then show False using out by simp
  qed
  then show ?thesis using rp out ch fr by blast
qed

theorem pruned_node_is_removed_and_untouched_witness:
  "tree api_heap api_shape
   \<and> (\<exists>s'. run 4 api_heap (root api_shape) = Some (Inr s')
           \<and> 3 \<in> set (child_list (api_heap 1)) \<and> 3 \<notin> set (child_list (heap s' 1))
           \<and> heap s' 3 = api_heap 3
           \<and> 6 \<in> set (child_list (api_heap 5)) \<and> 6 \<notin> set (child_list (heap s' 5))
           \<and> heap s' 6 = api_heap 6
           \<and> \<not> (\<exists>k. namespaces s' k = Some 3))"
proof -
  obtain s' where r: "run 4 api_heap (root api_shape) = Some (Inr s')"
    using api_run by blast
  have n3: "3 \<noteq> root api_shape" and n6: "6 \<noteq> root api_shape"
    by (simp_all add: api_shape_def)
  have p3: "(\<exists>fl. flags (api_heap 3) = Some fl \<and> isPrivate fl = Some True)
            \<or> startsWith (name (api_heap 3)) ''_''"
    and p6: "(\<exists>fl. flags (api_heap 6) = Some fl \<and> isPrivate fl = Some True)
            \<or> startsWith (name (api_heap 6)) ''_''"
    by (simp_all add: api_at eval_defs)
  have in1: "1 \<in> set (addrs (kept api_heap api_shape))"
    and in5: "5 \<in> set (addrs (kept api_heap api_shape))"
    by (simp_all add: api_kept)
  have c: "3 \<in> set (child_list (api_heap 1))" "6 \<in> set (child_list (api_heap 5))"
    by (simp_all add: api_at eval_defs del: One_nat_def)
  show ?thesis
    using pruned_node_is_removed_and_untouched [OF api_tree r n3 p3]
      pruned_node_is_removed_and_untouched [OF api_tree r n6 p6]
      in1 in5 c api_tree r
    by blast
qed

text \<open>
  Claim C10 as stated fails. In \<open>same_name_heap\<close> the namespace at address 1 has one
  child, an interface whose name starts with an underscore, so it is registered when it
  is visited. The namespace at address 3 has the same fully-qualified name and is
  visited later: the returned registry holds it under that name, and the first
  namespace under no name.
\<close>

theorem registration_overwritten_by_same_name:
  "kindString (same_name_heap 1) = Some ''Namespace''
   \<and> child_list (same_name_heap 1) = [2]
   \<and> kindString (same_name_heap 2) = Some ''Interface''
   \<and> \<not> filter_node (same_name_heap 2)
   \<and> (\<exists>s'. run 3 same_name_heap 0 = Some (Inr s')
           \<and> namespaces s' ''app'' = Some 3
           \<and> (\<forall>k. namespaces s' k \<noteq> Some 1))"
  by (simp add: eval_defs same_name_heap_def numeral_3_eq_3)

text \<open>
  Claim C10, amended. \<^verbatim>\<open>visit\<close> decides on the registration of a namespace over the
  unfiltered child list. Let the run on a tree return, and take a retained namespace
  that has a non-namespace child, all of whose non-namespace children are private or have
  a name that starts with an underscore, and whose fully-qualified name no other
  retained namespace with a non-namespace child has. Then the returned registry holds
  the namespace under its fully-qualified name, although after the run its children list
  holds none of its non-namespace children, and no non-namespace child at all.
\<close>

theorem registration_decided_on_unfiltered_children:
  assumes "tree h t" and "run f h (root t) = Some (Inr s')"
    and "(qs, u) \<in> set (visits h [] t)"
    and "kindString (h (root u)) = Some ''Namespace''"
    and "hasNonNamespaceChild h (root u)"
    and "\<forall>c \<in> set (child_list (h (root u))).
           kindString (h c) \<noteq> Some ''Namespace'' \<longrightarrow> \<not> filter_node (h c)"
    and "\<forall>(qs', u') \<in> set (visits h [] t).
           kindString (h (root u')) = Some ''Namespace''
           \<and> hasNonNamespaceChild h (root u')
           \<and> fqdn_of h qs' (root u') = fqdn_of h qs (root u)
           \<longrightarrow> root u' = root u"
  shows "namespaces s' (fqdn_of h qs (root u)) = Some (root u)
       \<and> (\<forall>c \<in> set (child_list (h (root u))).
            kindString (h c) \<noteq> Some ''Namespace'' \<longrightarrow> c \<notin> set (child_list (heap s' (root u))))
       \<and> \<not> hasNonNamespaceChild (heap s') (root u)"
proof -
  have reg: "namespaces s' (fqdn_of h qs (root u)) = Some (root u)"
    by (rule run_registered [OF assms(1,2,3,4,5,7)])
  have ch: "set (child_list (heap s' (root u))) =
              {c \<in> set (child_list (h (root u))). filter_node (h c)}"
    by (rule run_children [OF assms(1,2,3)])
  have gone: "c \<notin> set (child_list (heap s' (root u)))"
    if "c \<in> set (child_list (h (root u)))" "kindString (h c) \<noteq> Some ''Namespace''" for c
    using that assms(6) ch by auto
  have kind: "kindString (heap s' c) = kindString (h c)" for c
    using run_core [OF assms(1,2)] by (simp add: core_eq_def)
  have "\<not> hasNonNamespaceChild (heap s') (root u)"
    using ch assms(6) by (auto simp: hasNonNamespaceChild_def list_ex_iff kind)
  then show ?thesis using reg gone by blast
qed

theorem registration_decided_on_unfiltered_children_witness:
  "tree api_heap api_shape
   \<and> (\<exists>s'. run 4 api_heap (root api_shape) = Some (Inr s')
           \<and> child_list (api_heap 5) = [6]
           \<and> namespaces s' ''runtime'' = Some 5
           \<and> 6 \<notin> set (child_list (heap s' 5))
           \<and> \<not> hasNonNamespaceChild (heap s') 5)"
proof -
  obtain s' where r: "run 4 api_heap (root api_shape) = Some (Inr s')"
    using api_run by blast
  have m: "([0], Shape 5 [Shape 6 []]) \<in> set (visits api_heap [] api_shape)"
    by (simp add: api_visits)
  have k: "kindString (api_heap (root (Shape 5 [Shape 6 []]))) = Some ''Namespace''"
    and c: "hasNonNamespaceChild api_heap (root (Shape 5 [Shape 6 []]))"
    and p: "\<forall>c \<in> set (child_list (api_heap (root (Shape 5 [Shape 6 []])))).
              kindString (api_heap c) \<noteq> Some ''Namespace'' \<longrightarrow> \<not> filter_node (api_heap c)"
    and l: "child_list (api_heap 5) = [6]"
    by (simp_all add: api_at eval_defs del: One_nat_def)
  have u: "\<forall>(qs', u') \<in> set (visits api_heap [] api_shape).
           kindString (api_heap (root u')) = Some ''Namespace''
           \<and> hasNonNamespaceChild api_heap (root u')
           \<and> fqdn_of api_heap qs' (root u') = fqdn_of api_heap [0] (root (Shape 5 [Shape 6 []]))
           \<longrightarrow> root u' = root (Shape 5 [Shape 6 []])"
    by (simp add: api_visits api_shape_def api_at eval_defs del: One_nat_def)
  have "namespaces s' ''runtime'' = Some 5
        \<and> 6 \<notin> set (child_list (heap s' 5))
        \<and> \<not> hasNonNamespaceChild (heap s') 5"
    using registration_decided_on_unfiltered_children [OF api_tree r m k c p u]
    by (simp add: api_at eval_defs del: One_nat_def)
  then show ?thesis using api_tree r l by blast
qed

end
